theory Spec2Isabelle
  imports Main "HOL-Library.Signed_Division" "HOL-Library.AList"
begin

section \<open>The batch video transcoder\<close>

text \<open>
  The sources hold three revisions of the program, each a complete \<open>package main\<close>:
  \<^item> the \<^emph>\<open>sequential\<close> revision (first half of \<^verbatim>\<open>main.go\<close>): one file after the other,
    a \<^verbatim>\<open>-threads\<close> flag, incomplete markers and a process manager; suffix \<open>_seq\<close>;
  \<^item> the \<^emph>\<open>pool\<close> revision (second half of \<^verbatim>\<open>main.go\<close>): a semaphore of \<open>MAX_WORKERS\<close>
    slots, incomplete markers, a process manager and an integrity check; suffix \<open>_pool\<close>;
  \<^item> the \<^emph>\<open>basic\<close> revision (\<^verbatim>\<open>unnamed/part_001\<close>): the semaphore and the integrity
    check, without markers and without cancellation; suffix \<open>_basic\<close>.
  A function that several revisions define is modelled once per revision, under the
  source's name and the revision's suffix.
\<close>

section \<open>The program\<close>

subsection \<open>Go integers\<close>

text \<open>
  Go's \<^verbatim>\<open>int\<close> has 64 bits on the platforms the Makefile builds for. A product wraps
  around; the quotient \<^verbatim>\<open>a / b\<close> truncates towards zero (\<open>sdiv\<close>).
\<close>

definition wrap64 :: "int \<Rightarrow> int" where
  "wrap64 x = (x + 2 ^ 63) mod 2 ^ 64 - 2 ^ 63"

definition TARGET_CPU_PERCENT :: int where
  "TARGET_CPU_PERCENT = 50"

definition MAX_WORKERS :: int where
  "MAX_WORKERS = 2"

text \<open>
  The body of \<^verbatim>\<open>calculateThreadsPerWorker\<close>, with the two constants it reads as
  parameters; the basic revision has the same lines inside \<^verbatim>\<open>processFile\<close>.
\<close>

definition threadsPerWorkerOf :: "int \<Rightarrow> int \<Rightarrow> int \<Rightarrow> int" where
  "threadsPerWorkerOf targetPercent maxWorkers numCPU =
     (let totalThreads = wrap64 (targetPercent * numCPU) sdiv 100;
          totalThreads = (if totalThreads < 1 then 1 else totalThreads);
          threadsPerWorker = totalThreads sdiv maxWorkers;
          threadsPerWorker = (if threadsPerWorker < 1 then 1 else threadsPerWorker)
      in threadsPerWorker)"

definition calculateThreadsPerWorker :: "int \<Rightarrow> int" where
  "calculateThreadsPerWorker numCPU =
     threadsPerWorkerOf TARGET_CPU_PERCENT MAX_WORKERS numCPU"


subsection \<open>Strings and paths\<close>

text \<open>
  A Go string is a byte string. \<open>ToLower\<close> maps the ASCII letters \<open>A\<close> to \<open>Z\<close> to lower case
  (it sets bit 5); the lower-casing of other runes is not modelled. No rune outside ASCII
  lower-cases to a letter of \<open>.mov\<close>.
\<close>

definition toLower_char :: "char \<Rightarrow> char" where
  "toLower_char c =
     (let n = (of_char c :: nat)
      in if 65 \<le> n \<and> n \<le> 90
         then (case c of Char b0 b1 b2 b3 b4 b5 b6 b7 \<Rightarrow> Char b0 b1 b2 b3 b4 True b6 b7)
         else c)"

definition ToLower :: "string \<Rightarrow> string" where
  "ToLower s = map toLower_char s"

definition HasSuffix :: "string \<Rightarrow> string \<Rightarrow> bool" where
  "HasSuffix s suffix =
     (length suffix \<le> length s \<and> drop (length s - length suffix) s = suffix)"

definition TrimSuffix :: "string \<Rightarrow> string \<Rightarrow> string" where
  "TrimSuffix s suffix =
     (if HasSuffix s suffix then take (length s - length suffix) s else s)"

fun Split :: "string \<Rightarrow> char \<Rightarrow> string list" where
  "Split [] sep = [[]]"
| "Split (c # cs) sep =
     (if c = sep then [] # Split cs sep
      else (case Split cs sep of [] \<Rightarrow> [[c]] | x # xs \<Rightarrow> (c # x) # xs))"

text \<open>
  \<^verbatim>\<open>filepath.Ext\<close> scans from the end of the string for a dot and stops at a path
  separator; \<open>ext_scan\<close> is that loop on the reversed string.
\<close>

fun ext_scan :: "string \<Rightarrow> string \<Rightarrow> string" where
  "ext_scan [] acc = []"
| "ext_scan (c # cs) acc =
     (if c = CHR ''/'' then []
      else if c = CHR ''.'' then c # acc
      else ext_scan cs (c # acc))"

definition Ext :: "string \<Rightarrow> string" where
  "Ext p = ext_scan (rev p) []"

text \<open>
  A path is the list of its elements, from the root of the disk; the string of a path
  puts a separator before each element. \<open>Join\<close>, \<open>Dir_of\<close> (\<^verbatim>\<open>filepath.Dir\<close>) and
  \<open>Base\<close> are the operations of \<^verbatim>\<open>path/filepath\<close> on clean paths; \<open>path_append\<close> is string
  concatenation to a path (\<^verbatim>\<open>outputPath + ".incomplete"\<close>).
\<close>

type_synonym path = "string list"

definition Join :: "path \<Rightarrow> string \<Rightarrow> path" where
  "Join p name = p @ [name]"

definition Dir_of :: "path \<Rightarrow> path" where
  "Dir_of p = butlast p"

definition Base :: "path \<Rightarrow> string" where
  "Base p = (if p = [] then ''.'' else last p)"

definition path_string :: "path \<Rightarrow> string" where
  "path_string p = concat (map (\<lambda>name. CHR ''/'' # name) p)"

definition path_of_string :: "string \<Rightarrow> path" where
  "path_of_string s = tl (Split s CHR ''/'')"

definition path_append :: "path \<Rightarrow> string \<Rightarrow> path" where
  "path_append p s = (if p = [] then [s] else butlast p @ [last p @ s])"

subsection \<open>The disk\<close>

text \<open>
  The disk is a tree. A file has a size; a directory lists its entries by name, in the
  order in which \<^verbatim>\<open>filepath.Walk\<close> visits them. Two more kinds of entry carry the I/O
  errors a walk can meet: \<open>Locked\<close> is a directory that \<^verbatim>\<open>Lstat\<close> describes and that
  cannot be listed, \<open>Broken\<close> an entry on which \<^verbatim>\<open>Lstat\<close> fails.
\<close>

datatype node = File nat | Dir "(string \<times> node) list" | Locked | Broken

record FileInfo =
  IsDir :: bool
  Size :: nat

definition dir_size :: nat where
  "dir_size = 4096"

fun node_at :: "node \<Rightarrow> path \<Rightarrow> node option" where
  "node_at n [] = Some n"
| "node_at (Dir es) (x # xs) =
     (case map_of es x of None \<Rightarrow> None | Some c \<Rightarrow> node_at c xs)"
| "node_at n (x # xs) = None"

definition info_of :: "node \<Rightarrow> FileInfo option" where
  "info_of n =
     (case n of
        File sz \<Rightarrow> Some \<lparr>IsDir = False, Size = sz\<rparr>
      | Dir es \<Rightarrow> Some \<lparr>IsDir = True, Size = dir_size\<rparr>
      | Locked \<Rightarrow> Some \<lparr>IsDir = True, Size = dir_size\<rparr>
      | Broken \<Rightarrow> None)"

text \<open>\<^verbatim>\<open>os.Stat\<close>: \<open>None\<close> is an error (the path is absent, or its entry is broken).\<close>

definition Stat :: "node \<Rightarrow> path \<Rightarrow> FileInfo option" where
  "Stat d p = (case node_at d p of None \<Rightarrow> None | Some n \<Rightarrow> info_of n)"

fun put :: "node \<Rightarrow> path \<Rightarrow> node \<Rightarrow> node" where
  "put (Dir es) [x] n = Dir (AList.update x n es)"
| "put (Dir es) (x # y # ys) n =
     (case map_of es x of
        None \<Rightarrow> Dir es
      | Some c \<Rightarrow> Dir (AList.update x (put c (y # ys) n) es))"
| "put d p n = d"

fun del :: "node \<Rightarrow> path \<Rightarrow> node" where
  "del (Dir es) [x] = Dir (AList.delete x es)"
| "del (Dir es) (x # y # ys) =
     (case map_of es x of
        None \<Rightarrow> Dir es
      | Some c \<Rightarrow> Dir (AList.update x (del c (y # ys)) es))"
| "del d p = d"

text \<open>\<^verbatim>\<open>os.Remove\<close> removes a file or an empty directory; otherwise the disk stays.\<close>

definition Remove :: "node \<Rightarrow> path \<Rightarrow> node" where
  "Remove d p =
     (case node_at d p of
        Some (File sz) \<Rightarrow> del d p
      | Some (Dir []) \<Rightarrow> del d p
      | _ \<Rightarrow> d)"

text \<open>
  \<^verbatim>\<open>os.WriteFile\<close> creates or truncates a file in an existing directory; \<open>None\<close> is an
  error.
\<close>

definition WriteFile :: "node \<Rightarrow> path \<Rightarrow> nat \<Rightarrow> node option" where
  "WriteFile d p sz =
     (case node_at d (Dir_of p) of
        Some (Dir es) \<Rightarrow>
          (case node_at d p of
             None \<Rightarrow> Some (put d p (File sz))
           | Some (File old) \<Rightarrow> Some (put d p (File sz))
           | Some other \<Rightarrow> None)
      | _ \<Rightarrow> None)"

text \<open>
  \<^verbatim>\<open>os.MkdirAll\<close> succeeds on an existing directory and creates the missing ones;
  \<open>denied\<close> says that the system refuses to create a directory.
\<close>

fun MkdirAll :: "node \<Rightarrow> path \<Rightarrow> bool \<Rightarrow> node option" where
  "MkdirAll (Dir es) [] denied = Some (Dir es)"
| "MkdirAll Locked [] denied = Some Locked"
| "MkdirAll (Dir es) (x # xs) denied =
     (case map_of es x of
        None \<Rightarrow>
          (if denied then None
           else map_option (\<lambda>c. Dir (AList.update x c es)) (MkdirAll (Dir []) xs denied))
      | Some c \<Rightarrow> map_option (\<lambda>c. Dir (AList.update x c es)) (MkdirAll c xs denied))"
| "MkdirAll n p denied = None"

subsection \<open>Walk\<close>

text \<open>
  \<^verbatim>\<open>filepath.Walk\<close> of the Go library. The function it calls gets the path, the
  \<^verbatim>\<open>FileInfo\<close> (\<open>None\<close> when \<^verbatim>\<open>Lstat\<close> failed), whether an error is passed, and the
  state its closure updates; it returns an error or \<open>None\<close> for \<^verbatim>\<open>nil\<close>.
\<close>

datatype werror = SkipDir | IOError

type_synonym 's WalkFunc =
  "path \<Rightarrow> FileInfo option \<Rightarrow> bool \<Rightarrow> 's \<Rightarrow> werror option \<times> 's"

fun walk :: "path \<Rightarrow> node \<Rightarrow> 's WalkFunc \<Rightarrow> 's \<Rightarrow> werror option \<times> 's"
  and walk_names ::
    "path \<Rightarrow> (string \<times> node) list \<Rightarrow> 's WalkFunc \<Rightarrow> 's \<Rightarrow> werror option \<times> 's"
where
  "walk p (File sz) fn s = fn p (info_of (File sz)) False s"
| "walk p Broken fn s = fn p None True s"
| "walk p Locked fn s = fn p (info_of Locked) True s"
| "walk p (Dir es) fn s =
     (case fn p (info_of (Dir es)) False s of
        (Some e, s') \<Rightarrow> (Some e, s')
      | (None, s') \<Rightarrow> walk_names p es fn s')"
| "walk_names p [] fn s = (None, s)"
| "walk_names p ((name, c) # es) fn s =
     (case walk (Join p name) c fn s of
        (None, s') \<Rightarrow> walk_names p es fn s'
      | (Some e, s') \<Rightarrow>
          (if e = SkipDir \<and> (case info_of c of None \<Rightarrow> True | Some i \<Rightarrow> IsDir i)
           then walk_names p es fn s'
           else (Some e, s')))"

definition Walk :: "node \<Rightarrow> path \<Rightarrow> 's WalkFunc \<Rightarrow> 's \<Rightarrow> werror option \<times> 's" where
  "Walk d root fn s =
     (case (case node_at d root of
              None \<Rightarrow> fn root None True s
            | Some n \<Rightarrow> walk root n fn s) of
        (Some SkipDir, s') \<Rightarrow> (None, s')
      | r \<Rightarrow> r)"

subsection \<open>Constants\<close>

text \<open>
  The sequential revision spells the last two \<^verbatim>\<open>outputExtension\<close> and
  \<^verbatim>\<open>convertedDir\<close>, with the same values.
\<close>

definition sourceExtensions :: string where
  "sourceExtensions = ''.mov''"

definition SOURCE_EXTENSIONS_pool :: string where
  "SOURCE_EXTENSIONS_pool = ''.MOV,.mov''"

definition SOURCE_EXTENSIONS_basic :: string where
  "SOURCE_EXTENSIONS_basic = ''.MOV,.mov,.MP4,.mp4,.AVI,.avi''"

definition OUTPUT_EXTENSION :: string where
  "OUTPUT_EXTENSION = ''.mkv''"

definition CONVERTED_DIR :: string where
  "CONVERTED_DIR = ''converted''"

subsection \<open>Enumeration\<close>

record VideoFile =
  sourcePath :: path
  sourceDir :: path
  fileName :: string

definition video_file :: "path \<Rightarrow> VideoFile" where
  "video_file p = \<lparr>sourcePath = p, sourceDir = Dir_of p, fileName = Base p\<rparr>"

text \<open>
  The closure of \<^verbatim>\<open>findVideoFiles\<close> in the sequential revision: an error is returned to
  \<^verbatim>\<open>Walk\<close>, a directory is entered whatever its name, and a file is taken when its
  lower-cased extension is the allowed one.
\<close>

definition allowed_seq :: "path \<Rightarrow> bool" where
  "allowed_seq p =
     (let ext = ToLower (Ext (path_string p))
      in list_ex (\<lambda>allowedExt. ext = ToLower allowedExt) (Split sourceExtensions CHR '',''))"

definition visit_seq :: "VideoFile list WalkFunc" where
  "visit_seq p info err files =
     (if err then (Some IOError, files)
      else case info of
        None \<Rightarrow> (None, files)
      | Some i \<Rightarrow>
          if IsDir i then (None, files)
          else (None, if allowed_seq p then files @ [video_file p] else files))"

definition findVideoFiles_seq :: "node \<Rightarrow> path \<Rightarrow> VideoFile list \<times> werror option" where
  "findVideoFiles_seq d rootPath =
     (case Walk d rootPath visit_seq [] of (err, files) \<Rightarrow> (files, err))"

text \<open>
  The closure of the pool and basic revisions, which differ in the list of extensions:
  an error is logged and the walk goes on, a directory named \<open>CONVERTED_DIR\<close> is skipped,
  and a file is taken when its lower-cased path ends with a lower-cased extension.
\<close>

definition allowed :: "string \<Rightarrow> path \<Rightarrow> bool" where
  "allowed extensions p =
     list_ex (\<lambda>ext. HasSuffix (ToLower (path_string p)) (ToLower ext))
       (Split extensions CHR '','')"

definition visit_ext :: "string \<Rightarrow> VideoFile list WalkFunc" where
  "visit_ext extensions p info err files =
     (if err then (None, files)
      else case info of
        None \<Rightarrow> (None, files)
      | Some i \<Rightarrow>
          if IsDir i
          then (if Base p = CONVERTED_DIR then (Some SkipDir, files) else (None, files))
          else (None, if allowed extensions p then files @ [video_file p] else files))"

definition findVideoFiles_pool :: "node \<Rightarrow> path \<Rightarrow> VideoFile list \<times> werror option" where
  "findVideoFiles_pool d rootPath =
     (case Walk d rootPath (visit_ext SOURCE_EXTENSIONS_pool) [] of
        (err, files) \<Rightarrow> (files, err))"

definition findVideoFiles_basic :: "node \<Rightarrow> path \<Rightarrow> VideoFile list \<times> werror option" where
  "findVideoFiles_basic d rootPath =
     (case Walk d rootPath (visit_ext SOURCE_EXTENSIONS_basic) [] of
        (err, files) \<Rightarrow> (files, err))"

subsection \<open>The world of a task\<close>

text \<open>
  A task acts on the disk and on the registry of the process manager; the trace records
  its calls in order. What the surroundings do while a task runs is its \<open>task_env\<close>:
  whether the context is cancelled when the loop and the task look at it, whether the
  system refuses a directory or the marker, whether the transcoder starts, its process
  id, the size of the file it leaves at its target (\<open>None\<close>: no file), which branch the
  \<^verbatim>\<open>select\<close> takes, whether the interrupted process exits within the five seconds,
  whether \<^verbatim>\<open>cmd.Wait\<close> returns an error, and whether the context is cancelled after that.
  \<open>E_Timeout p t\<close> is the timer of \<open>t\<close> seconds running out while the task waits for the
  process \<open>p\<close>.
\<close>

datatype event =
    E_Stat path
  | E_MkdirAll path
  | E_WriteFile path
  | E_Start path
  | E_Register nat
  | E_Unregister nat
  | E_Interrupt nat
  | E_Exited nat
  | E_Timeout nat nat
  | E_Kill nat
  | E_Remove path
  | E_Chtimes path

record world =
  disk :: node
  processes :: "nat list"
  trace :: "event list"

record task_env =
  ctx_done_at_loop :: bool
  ctx_done_at_start :: bool
  mkdir_denied :: bool
  write_denied :: bool
  stamp :: nat
  start_fails :: bool
  pid :: nat
  produced :: "nat option"
  cancel_wins :: bool
  exits_in_grace :: bool
  wait_err :: bool
  ctx_err_after_wait :: bool

definition emit :: "event \<Rightarrow> world \<Rightarrow> world" where
  "emit e w = w\<lparr>trace := trace w @ [e]\<rparr>"

definition RegisterProcess :: "nat \<Rightarrow> world \<Rightarrow> world" where
  "RegisterProcess p w = emit (E_Register p) (w\<lparr>processes := p # removeAll p (processes w)\<rparr>)"

definition UnregisterProcess :: "nat \<Rightarrow> world \<Rightarrow> world" where
  "UnregisterProcess p w = emit (E_Unregister p) (w\<lparr>processes := removeAll p (processes w)\<rparr>)"

definition os_Stat :: "path \<Rightarrow> world \<Rightarrow> FileInfo option \<times> world" where
  "os_Stat p w = (Stat (disk w) p, emit (E_Stat p) w)"

definition os_MkdirAll :: "path \<Rightarrow> bool \<Rightarrow> world \<Rightarrow> bool \<times> world" where
  "os_MkdirAll p denied w =
     (case MkdirAll (disk w) p denied of
        None \<Rightarrow> (False, emit (E_MkdirAll p) w)
      | Some d \<Rightarrow> (True, emit (E_MkdirAll p) (w\<lparr>disk := d\<rparr>)))"

definition os_WriteFile :: "path \<Rightarrow> nat \<Rightarrow> bool \<Rightarrow> world \<Rightarrow> bool \<times> world" where
  "os_WriteFile p sz denied w =
     (case (if denied then None else WriteFile (disk w) p sz) of
        None \<Rightarrow> (False, emit (E_WriteFile p) w)
      | Some d \<Rightarrow> (True, emit (E_WriteFile p) (w\<lparr>disk := d\<rparr>)))"

definition os_Remove :: "path \<Rightarrow> world \<Rightarrow> world" where
  "os_Remove p w = emit (E_Remove p) (w\<lparr>disk := Remove (disk w) p\<rparr>)"

text \<open>
  \<^verbatim>\<open>cmd.Start\<close> on the transcoder writing to \<open>target\<close>. The file the process leaves at
  its target is on the disk from the start on: what the task sees of it later is what
  the process has written by then.
\<close>

definition cmd_Start :: "path \<Rightarrow> task_env \<Rightarrow> world \<Rightarrow> bool \<times> world" where
  "cmd_Start target env w =
     (if start_fails env then (False, emit (E_Start target) w)
      else
        (True,
         emit (E_Start target)
           (case produced env of
              None \<Rightarrow> w
            | Some sz \<Rightarrow>
                (case WriteFile (disk w) target sz of
                   None \<Rightarrow> w
                 | Some d \<Rightarrow> w\<lparr>disk := d\<rparr>))))"

subsection \<open>processFile\<close>

definition convertedDir_of :: "VideoFile \<Rightarrow> path" where
  "convertedDir_of file = Join (sourceDir file) CONVERTED_DIR"

definition outputFileName_of :: "VideoFile \<Rightarrow> string" where
  "outputFileName_of file =
     (let nameWithoutExt = TrimSuffix (fileName file) (Ext (fileName file))
      in nameWithoutExt @ OUTPUT_EXTENSION)"

definition outputPath_of :: "VideoFile \<Rightarrow> path" where
  "outputPath_of file = Join (convertedDir_of file) (outputFileName_of file)"

definition incompleteMarker_of :: "VideoFile \<Rightarrow> path" where
  "incompleteMarker_of file = path_append (outputPath_of file) ''.incomplete''"

definition cleanup :: "VideoFile \<Rightarrow> world \<Rightarrow> world" where
  "cleanup file w = os_Remove (incompleteMarker_of file) (os_Remove (outputPath_of file) w)"

text \<open>
  The sequential revision. \<open>prepare_seq\<close> is \<^verbatim>\<open>processFile\<close> up to the registration of
  the process: \<open>Some r\<close> when the task has returned \<open>r\<close> by then, \<open>None\<close> when the process
  runs. \<open>await_seq\<close> is the \<^verbatim>\<open>select\<close> and what follows it.
\<close>

definition prepare_seq :: "VideoFile \<Rightarrow> task_env \<Rightarrow> world \<Rightarrow> int option \<times> world" where
  "prepare_seq file env w =
     (if ctx_done_at_start env then (Some 3, w)
      else case os_Stat (sourcePath file) w of
        (None, w) \<Rightarrow> (Some 2, w)
      | (Some sourceInfo, w) \<Rightarrow>
      (case os_MkdirAll (convertedDir_of file) (mkdir_denied env) w of
        (False, w) \<Rightarrow> (Some 2, w)
      | (True, w) \<Rightarrow>
      (case os_Stat (outputPath_of file) w of
        (Some info, w) \<Rightarrow> (Some 1, w)
      | (None, w) \<Rightarrow>
      (case os_WriteFile (incompleteMarker_of file) (stamp env) (write_denied env) w of
        (False, w) \<Rightarrow> (Some 2, w)
      | (True, w) \<Rightarrow>
      (case cmd_Start (outputPath_of file) env w of
        (False, w) \<Rightarrow> (Some 2, cleanup file w)
      | (True, w) \<Rightarrow> (None, RegisterProcess (pid env) w))))))"

definition await_seq :: "VideoFile \<Rightarrow> task_env \<Rightarrow> world \<Rightarrow> int \<times> world" where
  "await_seq file env w =
     (if cancel_wins env then
        let w = emit (E_Interrupt (pid env)) w;
            w = (if exits_in_grace env then emit (E_Exited (pid env)) w
                 else emit (E_Kill (pid env)) (emit (E_Timeout (pid env) 5) w));
            w = cleanup file w;
            w = UnregisterProcess (pid env) w
        in (3, w)
      else
        let w = emit (E_Exited (pid env)) w;
            w = UnregisterProcess (pid env) w
        in if wait_err env then (2, cleanup file w)
           else
             let w = os_Remove (incompleteMarker_of file) w;
                 w = emit (E_Chtimes (outputPath_of file)) w
             in (0, w))"

definition processFile_seq :: "VideoFile \<Rightarrow> int \<Rightarrow> task_env \<Rightarrow> world \<Rightarrow> int \<times> world" where
  "processFile_seq file threads env w =
     (case prepare_seq file env w of
        (Some r, w) \<Rightarrow> (r, w)
      | (None, w) \<Rightarrow> await_seq file env w)"

text \<open>The pool revision, in the same two parts, and its integrity check.\<close>

definition prepare_pool :: "VideoFile \<Rightarrow> task_env \<Rightarrow> world \<Rightarrow> int option \<times> world" where
  "prepare_pool file env w =
     (if ctx_done_at_start env then (Some 3, w)
      else case os_MkdirAll (convertedDir_of file) (mkdir_denied env) w of
        (False, w) \<Rightarrow> (Some 2, w)
      | (True, w) \<Rightarrow>
      (case os_Stat (outputPath_of file) w of
        (Some info, w) \<Rightarrow> (Some 1, w)
      | (None, w) \<Rightarrow>
      (case os_WriteFile (incompleteMarker_of file) (stamp env) (write_denied env) w of
        (False, w) \<Rightarrow> (Some 2, w)
      | (True, w) \<Rightarrow>
      (case cmd_Start (outputPath_of file) env w of
        (False, w) \<Rightarrow> (Some 2, cleanup file w)
      | (True, w) \<Rightarrow> (None, RegisterProcess (pid env) w)))))"

definition verify_pool :: "VideoFile \<Rightarrow> world \<Rightarrow> int \<times> world" where
  "verify_pool file w =
     (case os_Stat (outputPath_of file) w of
        (None, w) \<Rightarrow> (2, cleanup file w)
      | (Some info, w) \<Rightarrow>
          if Size info = 0 then (2, cleanup file w)
          else (0, os_Remove (incompleteMarker_of file) w))"

definition await_pool :: "VideoFile \<Rightarrow> task_env \<Rightarrow> world \<Rightarrow> int \<times> world" where
  "await_pool file env w =
     (if cancel_wins env then
        let w = emit (E_Kill (pid env)) w;
            w = UnregisterProcess (pid env) w;
            w = cleanup file w
        in (3, w)
      else
        let w = emit (E_Exited (pid env)) w;
            w = UnregisterProcess (pid env) w
        in if wait_err env then
             (if ctx_err_after_wait env then (3, cleanup file w) else (2, cleanup file w))
           else verify_pool file w)"

definition processFile_pool :: "VideoFile \<Rightarrow> int \<Rightarrow> task_env \<Rightarrow> world \<Rightarrow> int \<times> world" where
  "processFile_pool file threadsPerWorker env w =
     (case prepare_pool file env w of
        (Some r, w) \<Rightarrow> (r, w)
      | (None, w) \<Rightarrow> await_pool file env w)"


subsection \<open>processFiles\<close>

record counters =
  successCount :: int
  skipCount :: int
  errorCount :: int
  canceledCount :: int

definition no_counts :: counters where
  "no_counts = \<lparr>successCount = 0, skipCount = 0, errorCount = 0, canceledCount = 0\<rparr>"

text \<open>The \<^verbatim>\<open>switch result\<close> of the sequential and pool revisions.\<close>

definition tally :: "int \<Rightarrow> counters \<Rightarrow> counters" where
  "tally result c =
     (if result = 0 then c\<lparr>successCount := successCount c + 1\<rparr>
      else if result = 1 then c\<lparr>skipCount := skipCount c + 1\<rparr>
      else if result = 2 then c\<lparr>errorCount := errorCount c + 1\<rparr>
      else if result = 3 then c\<lparr>canceledCount := canceledCount c + 1\<rparr>
      else c)"

text \<open>
  \<^verbatim>\<open>canceledCount = len(files) - successCount - skipCount - errorCount\<close>, with \<open>n\<close> the
  number of files.
\<close>

definition rest_canceled :: "int \<Rightarrow> counters \<Rightarrow> counters" where
  "rest_canceled n c = c\<lparr>canceledCount := n - successCount c - skipCount c - errorCount c\<rparr>"

text \<open>The lines of the summary: the cancelled count is printed when it is positive.\<close>

definition summary :: "counters \<Rightarrow> (string \<times> int) list" where
  "summary c =
     [(''success'', successCount c), (''skipped'', skipCount c)]
     @ (if canceledCount c > 0 then [(''canceled'', canceledCount c)] else [])
     @ [(''errors'', errorCount c)]"

text \<open>
  The loop of the sequential revision; \<open>env i\<close> is the surroundings of the \<open>i\<close>-th
  iteration. A cancelled context ends the loop.
\<close>

fun loop_seq ::
  "int \<Rightarrow> VideoFile list \<Rightarrow> int \<Rightarrow> (nat \<Rightarrow> task_env) \<Rightarrow> nat \<Rightarrow> counters \<Rightarrow> world
     \<Rightarrow> counters \<times> world" where
  "loop_seq n [] threads env i c w = (c, w)"
| "loop_seq n (file # files) threads env i c w =
     (if ctx_done_at_loop (env i) then (rest_canceled n c, w)
      else case processFile_seq file threads (env i) w of
        (result, w) \<Rightarrow> loop_seq n files threads env (Suc i) (tally result c) w)"

definition processFiles_seq ::
  "VideoFile list \<Rightarrow> int \<Rightarrow> (nat \<Rightarrow> task_env) \<Rightarrow> world \<Rightarrow> counters \<times> world" where
  "processFiles_seq files threads env w =
     loop_seq (int (length files)) files threads env 0 no_counts w"

text \<open>
  The loop of the pool revision under the schedule in which every goroutine ends before
  the loop takes the next file. The \<^verbatim>\<open>break\<close> of the cancelled case is inside the
  \<^verbatim>\<open>select\<close>, which it leaves: the iteration goes on.
\<close>

fun loop_pool ::
  "int \<Rightarrow> VideoFile list \<Rightarrow> int \<Rightarrow> (nat \<Rightarrow> task_env) \<Rightarrow> nat \<Rightarrow> counters \<Rightarrow> world
     \<Rightarrow> counters \<times> world" where
  "loop_pool n [] threadsPerWorker env i c w = (c, w)"
| "loop_pool n (file # files) threadsPerWorker env i c w =
     (let c = (if ctx_done_at_loop (env i) then rest_canceled n c else c)
      in case processFile_pool file threadsPerWorker (env i) w of
        (result, w) \<Rightarrow> loop_pool n files threadsPerWorker env (Suc i) (tally result c) w)"

definition processFiles_pool ::
  "VideoFile list \<Rightarrow> int \<Rightarrow> (nat \<Rightarrow> task_env) \<Rightarrow> world \<Rightarrow> counters \<times> world" where
  "processFiles_pool files threadsPerWorker env w =
     loop_pool (int (length files)) files threadsPerWorker env 0 no_counts w"



subsection \<open>The semaphore\<close>

text \<open>
  The goroutines of \<^verbatim>\<open>processFiles\<close> in the pool and basic revisions, under every
  schedule. A goroutine is in one of three phases: it prepares, its process runs, or
  \<^verbatim>\<open>processFile\<close> has returned. The state holds the files the loop has not reached, the
  index of the next one, the number of values in the channel \<^verbatim>\<open>semaphore\<close>, the
  goroutines alive, the counters and the world. \<open>prep\<close> and \<open>await\<close> are the two parts of
  \<^verbatim>\<open>processFile\<close>.
\<close>

datatype phase = Preparing | Running | Returned int

record sched =
  pending :: "VideoFile list"
  next_index :: nat
  semaphore :: nat
  goroutines :: "(nat \<times> VideoFile \<times> phase) list"
  counts :: counters
  wld :: world

definition start_sched :: "VideoFile list \<Rightarrow> world \<Rightarrow> sched" where
  "start_sched files w =
     \<lparr>pending = files, next_index = 0, semaphore = 0, goroutines = [],
      counts = no_counts, wld = w\<rparr>"

text \<open>
  \<open>launch\<close>: the send \<^verbatim>\<open>semaphore <- struct{}{}\<close> goes through when the channel holds
  fewer than \<open>MAX_WORKERS\<close> values, and the goroutine starts. \<open>prepare\<close> and \<open>finish\<close>: a
  goroutine runs a part of \<^verbatim>\<open>processFile\<close>. \<open>release\<close>: the goroutine counts its result
  and its deferred receive \<^verbatim>\<open><-semaphore\<close> takes a value out, whatever the result.
\<close>

inductive step ::
  "(VideoFile \<Rightarrow> task_env \<Rightarrow> world \<Rightarrow> int option \<times> world)
   \<Rightarrow> (VideoFile \<Rightarrow> task_env \<Rightarrow> world \<Rightarrow> int \<times> world)
   \<Rightarrow> (nat \<Rightarrow> task_env) \<Rightarrow> int \<Rightarrow> sched \<Rightarrow> sched \<Rightarrow> bool"
  for prep await env n
where
  launch:
    "pending s = file # files \<Longrightarrow> int (semaphore s) < MAX_WORKERS \<Longrightarrow>
     step prep await env n s
       (s\<lparr>pending := files, next_index := Suc (next_index s),
          semaphore := Suc (semaphore s),
          goroutines := goroutines s @ [(next_index s, file, Preparing)],
          counts := (if ctx_done_at_loop (env (next_index s))
                     then rest_canceled n (counts s) else counts s)\<rparr>)"
| prepare:
    "goroutines s = before @ (i, file, Preparing) # after \<Longrightarrow>
     prep file (env i) (wld s) = (r, w) \<Longrightarrow>
     step prep await env n s
       (s\<lparr>goroutines :=
            before @ (i, file, case r of None \<Rightarrow> Running | Some res \<Rightarrow> Returned res) # after,
          wld := w\<rparr>)"
| finish:
    "goroutines s = before @ (i, file, Running) # after \<Longrightarrow>
     await file (env i) (wld s) = (res, w) \<Longrightarrow>
     step prep await env n s
       (s\<lparr>goroutines := before @ (i, file, Returned res) # after, wld := w\<rparr>)"
| release:
    "goroutines s = before @ (i, file, Returned res) # after \<Longrightarrow>
     step prep await env n s
       (s\<lparr>goroutines := before @ after, semaphore := semaphore s - 1,
          counts := tally res (counts s)\<rparr>)"

inductive reachable ::
  "(VideoFile \<Rightarrow> task_env \<Rightarrow> world \<Rightarrow> int option \<times> world)
   \<Rightarrow> (VideoFile \<Rightarrow> task_env \<Rightarrow> world \<Rightarrow> int \<times> world)
   \<Rightarrow> (nat \<Rightarrow> task_env) \<Rightarrow> VideoFile list \<Rightarrow> world \<Rightarrow> sched \<Rightarrow> bool"
  for prep await env files w
where
  init: "reachable prep await env files w (start_sched files w)"
| more:
    "reachable prep await env files w s \<Longrightarrow>
     step prep await env (int (length files)) s s' \<Longrightarrow>
     reachable prep await env files w s'"

text \<open>The processes that run: one for each goroutine in the phase \<open>Running\<close>.\<close>

definition running :: "sched \<Rightarrow> nat" where
  "running s = length (filter (\<lambda>g. snd (snd g) = Running) (goroutines s))"

text \<open>The two parts of the basic revision's \<^verbatim>\<open>processFile\<close>, split at \<^verbatim>\<open>cmd.Run\<close>.\<close>

definition prepare_basic :: "VideoFile \<Rightarrow> task_env \<Rightarrow> world \<Rightarrow> int option \<times> world" where
  "prepare_basic file env w =
     (case os_MkdirAll (convertedDir_of file) (mkdir_denied env) w of
        (False, w) \<Rightarrow> (Some 2, w)
      | (True, w) \<Rightarrow>
      (case os_Stat (outputPath_of file) w of
        (Some info, w) \<Rightarrow> (Some 1, w)
      | (None, w) \<Rightarrow>
      (let tempPath = path_append (outputPath_of file) ''.tmp''
       in case cmd_Start tempPath env w of
        (False, w) \<Rightarrow> (Some 2, os_Remove (outputPath_of file) w)
      | (True, w) \<Rightarrow> (None, w))))"

definition await_basic :: "VideoFile \<Rightarrow> task_env \<Rightarrow> world \<Rightarrow> int \<times> world" where
  "await_basic file env w =
     (if wait_err env then (2, os_Remove (outputPath_of file) w)
      else (case os_Stat (outputPath_of file) w of
              (None, w) \<Rightarrow> (2, os_Remove (outputPath_of file) w)
            | (Some info, w) \<Rightarrow>
                if Size info = 0 then (2, os_Remove (outputPath_of file) w)
                else (0, w)))"

subsection \<open>cleanupIncompleteFiles\<close>

text \<open>
  The sweep of the sequential revision walks \<open>rootPath\<close> and removes the markers. The
  sweep of the pool revision walks the working directory and removes, with a marker, the
  file the marker is named after.
\<close>

definition sweep_seq :: "world WalkFunc" where
  "sweep_seq p info err w =
     (if err then (None, w)
      else case info of
        None \<Rightarrow> (None, w)
      | Some i \<Rightarrow>
          if \<not> IsDir i \<and> HasSuffix (path_string p) ''.incomplete''
          then (None, os_Remove p w) else (None, w))"

definition cleanupIncompleteFiles_seq :: "path \<Rightarrow> world \<Rightarrow> world" where
  "cleanupIncompleteFiles_seq rootPath w = snd (Walk (disk w) rootPath sweep_seq w)"

definition sweep_pool :: "world WalkFunc" where
  "sweep_pool p info err w =
     (if err then (None, w)
      else case info of
        None \<Rightarrow> (None, w)
      | Some i \<Rightarrow>
          if \<not> IsDir i \<and> HasSuffix (path_string p) ''.incomplete''
          then
            let videoPath = path_of_string (TrimSuffix (path_string p) ''.incomplete'');
                w = (case os_Stat videoPath w of
                       (Some info, w) \<Rightarrow> os_Remove videoPath w
                     | (None, w) \<Rightarrow> w)
            in (None, os_Remove p w)
          else (None, w))"

definition cleanupIncompleteFiles_pool :: "path \<Rightarrow> world \<Rightarrow> world" where
  "cleanupIncompleteFiles_pool cwd w = snd (Walk (disk w) cwd sweep_pool w)"

subsection \<open>main\<close>

text \<open>
  \<^verbatim>\<open>main\<close> from the parsed arguments on: \<open>Fatal\<close> is an exit with an error, \<open>NoFiles\<close>
  the return when nothing was found, \<open>Finished\<close> the return after \<^verbatim>\<open>processFiles\<close>. No
  revision calls \<^verbatim>\<open>cleanupIncompleteFiles\<close> here: the sequential revision calls it
  nowhere, the pool revision in \<^verbatim>\<open>Shutdown\<close>, after an interrupt.
\<close>

datatype run = Fatal | NoFiles | Finished counters world

definition main_seq :: "int \<Rightarrow> path \<Rightarrow> bool \<Rightarrow> (nat \<Rightarrow> task_env) \<Rightarrow> world \<Rightarrow> run" where
  "main_seq threads rootPath ffmpeg_found env w =
     (if threads < 1 then Fatal
      else case Stat (disk w) rootPath of
        None \<Rightarrow> Fatal
      | Some info \<Rightarrow>
          if \<not> IsDir info then Fatal
          else if \<not> ffmpeg_found then Fatal
          else (case findVideoFiles_seq (disk w) rootPath of
            (files, Some err) \<Rightarrow> Fatal
          | (files, None) \<Rightarrow>
              if length files = 0 then NoFiles
              else (case processFiles_seq files threads env w of
                (c, w) \<Rightarrow> Finished c w)))"

definition main_pool :: "int \<Rightarrow> path \<Rightarrow> bool \<Rightarrow> (nat \<Rightarrow> task_env) \<Rightarrow> world \<Rightarrow> run" where
  "main_pool numCPU rootPath ffmpeg_found env w =
     (case Stat (disk w) rootPath of
        None \<Rightarrow> Fatal
      | Some info \<Rightarrow>
          if \<not> IsDir info then Fatal
          else if \<not> ffmpeg_found then Fatal
          else
            let threadsPerWorker = calculateThreadsPerWorker numCPU
            in (case findVideoFiles_pool (disk w) rootPath of
              (files, Some err) \<Rightarrow> Fatal
            | (files, None) \<Rightarrow>
                if length files = 0 then NoFiles
                else (case processFiles_pool files threadsPerWorker env w of
                  (c, w) \<Rightarrow> Finished c w)))"

text \<open>Worlds and surroundings for the examples.\<close>

definition fresh :: "node \<Rightarrow> world" where
  "fresh d = \<lparr>disk = d, processes = [], trace = []\<rparr>"

definition calm :: task_env where
  "calm = \<lparr>ctx_done_at_loop = False, ctx_done_at_start = False, mkdir_denied = False,
     write_denied = False, stamp = 30, start_fails = False, pid = 7, produced = Some 100,
     cancel_wins = False, exits_in_grace = False, wait_err = False,
     ctx_err_after_wait = False\<rparr>"

text \<open>
  A path \<open>q\<close> lies below \<open>root\<close> without passing a directory named \<open>CONVERTED_DIR\<close>:
  the directories from \<open>root\<close> down to the one that holds \<open>q\<close> have other names.
\<close>

definition below :: "path \<Rightarrow> path \<Rightarrow> bool" where
  "below root q =
     (\<exists>rest. q = root @ rest \<and> (rest \<noteq> [] \<longrightarrow> CONVERTED_DIR \<notin> set (Base root # butlast rest)))"

text \<open>The files of the disk under a path, and whether a walk of a node meets an I/O error.\<close>

fun files_in :: "path \<Rightarrow> node \<Rightarrow> path list"
  and files_in_names :: "path \<Rightarrow> (string \<times> node) list \<Rightarrow> path list" where
  "files_in p (File sz) = [p]"
| "files_in p (Dir es) = files_in_names p es"
| "files_in p Locked = []"
| "files_in p Broken = []"
| "files_in_names p [] = []"
| "files_in_names p ((name, c) # es) = files_in (Join p name) c @ files_in_names p es"

definition files_under :: "node \<Rightarrow> path \<Rightarrow> path list" where
  "files_under d root = (case node_at d root of None \<Rightarrow> [] | Some n \<Rightarrow> files_in root n)"

fun faulty :: "node \<Rightarrow> bool" and faulty_names :: "(string \<times> node) list \<Rightarrow> bool" where
  "faulty (File sz) = False"
| "faulty (Dir es) = faulty_names es"
| "faulty Locked = True"
| "faulty Broken = True"
| "faulty_names [] = False"
| "faulty_names ((name, c) # es) = (faulty c \<or> faulty_names es)"

text \<open>Disks for the examples.\<close>

definition faulty_disk :: node where
  "faulty_disk = Dir [(''videos'', Dir [
       (''a.mov'', File 10), (''bad'', Broken), (''locked'', Locked),
       (''sub'', Dir [(''d.mov'', File 7)])])]"

definition notes_disk :: node where
  "notes_disk = Dir [(''videos'', Dir [(''bad'', Broken), (''readme.txt'', File 3)])]"

definition plain_disk :: node where
  "plain_disk = Dir [(''videos'', Dir [(''readme.txt'', File 3)])]"

definition reconverted :: node where
  "reconverted = Dir [(''videos'', Dir [
       (''converted'', Dir [(''old.mov'', File 5)]), (''new.mov'', File 9)])]"

definition twins :: node where
  "twins = Dir [(''videos'', Dir [(''clip.MOV'', File 10), (''clip.mov'', File 10)])]"

definition crashed :: node where
  "crashed = Dir [(''videos'', Dir [
       (''a.mov'', File 10),
       (''converted'', Dir [(''a.mkv'', File 5), (''a.mkv.incomplete'', File 30)])])]"

definition trio :: node where
  "trio = Dir [(''videos'', Dir [(''a.mov'', File 10), (''b.mov'', File 10), (''c.mov'', File 10)])]"

definition gone :: task_env where
  "gone = calm\<lparr>ctx_done_at_loop := True, ctx_done_at_start := True\<rparr>"

definition interrupted_after :: "nat \<Rightarrow> nat \<Rightarrow> task_env" where
  "interrupted_after k i = (if i < k then calm else gone)"

text \<open>A path is vacant when nothing or a file is there: \<^verbatim>\<open>os.WriteFile\<close> can write it.\<close>

definition vacant :: "node \<Rightarrow> path \<Rightarrow> bool" where
  "vacant d p = (case node_at d p of None \<Rightarrow> True | Some (File sz) \<Rightarrow> True | Some n \<Rightarrow> False)"

text \<open>A path holds no directory: \<^verbatim>\<open>os.Remove\<close> leaves nothing there that \<^verbatim>\<open>os.Stat\<close> finds.\<close>

definition no_dir :: "node \<Rightarrow> path \<Rightarrow> bool" where
  "no_dir d p = (\<forall>i. Stat d p = Some i \<longrightarrow> \<not> IsDir i)"

text \<open>The world \<open>w\<close> with the disk \<open>d\<close> and the events \<open>evs\<close> added to its trace.\<close>

definition after :: "world \<Rightarrow> node \<Rightarrow> event list \<Rightarrow> world" where
  "after w d evs = w\<lparr>disk := d, trace := trace w @ evs\<rparr>"

text \<open>A file of the disk \<open>trio\<close> and the worlds in which its transcoder runs.\<close>

definition a_mov :: VideoFile where
  "a_mov = video_file [''videos'', ''a.mov'']"

definition pool_running :: "nat option \<Rightarrow> world" where
  "pool_running out =
     \<lparr>disk = Dir [(''videos'', Dir [(''a.mov'', File 10), (''b.mov'', File 10),
         (''c.mov'', File 10),
         (''converted'', Dir ((''a.mkv.incomplete'', File 30)
            # (case out of None \<Rightarrow> [] | Some sz \<Rightarrow> [(''a.mkv'', File sz)])))])],
      processes = [7],
      trace = [E_MkdirAll [''videos'', ''converted''],
               E_Stat [''videos'', ''converted'', ''a.mkv''],
               E_WriteFile [''videos'', ''converted'', ''a.mkv.incomplete''],
               E_Start [''videos'', ''converted'', ''a.mkv''], E_Register 7]\<rparr>"

definition seq_running :: "nat option \<Rightarrow> world" where
  "seq_running out =
     (pool_running out)\<lparr>trace := E_Stat [''videos'', ''a.mov''] # trace (pool_running out)\<rparr>"




definition steady :: "task_env \<Rightarrow> nat \<Rightarrow> task_env" where
  "steady env i = env"

definition trio_files :: "VideoFile list" where
  "trio_files = [video_file [''videos'', ''a.mov''], video_file [''videos'', ''b.mov''],
                 video_file [''videos'', ''c.mov'']]"

text \<open>A state of the goroutines whose channel holds one value for each goroutine, and two more files of \<open>trio\<close>.\<close>

definition sched_of ::
  "VideoFile list \<Rightarrow> nat \<Rightarrow> (nat \<times> VideoFile \<times> phase) list \<Rightarrow> counters \<Rightarrow> world \<Rightarrow> sched" where
  "sched_of files k gs c w =
     \<lparr>pending = files, next_index = k, semaphore = length gs, goroutines = gs,
      counts = c, wld = w\<rparr>"

definition b_mov :: VideoFile where
  "b_mov = video_file [''videos'', ''b.mov'']"

definition c_mov :: VideoFile where
  "c_mov = video_file [''videos'', ''c.mov'']"

section \<open>Properties\<close>

subsection \<open>The thread budget\<close>

lemma wrap64_id: "- (2 ^ 63) \<le> x \<Longrightarrow> x < 2 ^ 63 \<Longrightarrow> wrap64 x = x"
  by (simp add: wrap64_def)

lemma sdiv_nonneg_eq_div: "0 \<le> a \<Longrightarrow> 0 < b \<Longrightarrow> a sdiv b = a div (b::int)"
  by (simp add: signed_divide_int_def sgn_if)

lemma sdiv_small_le_zero:
  assumes "a < 100"
  shows "a sdiv (100::int) \<le> 0"
proof (cases "0 \<le> a")
  case True
  with assms show ?thesis by (simp add: sdiv_nonneg_eq_div)
next
  case False
  then have "a sdiv 100 = - (\<bar>a\<bar> div 100)"
    by (simp add: signed_divide_int_def sgn_if)
  moreover have "0 \<le> \<bar>a\<bar> div 100" by simp
  ultimately show ?thesis by simp
qed

lemma one_div_le: "1 \<le> w \<Longrightarrow> 1 div (w::int) \<le> 1"
  by (cases "w = 1") (simp_all add: div_pos_pos_trivial)

lemma nonpos_div_le: "a \<le> 0 \<Longrightarrow> 1 \<le> w \<Longrightarrow> a div (w::int) \<le> 0"
  by (simp add: div_nonpos_pos_le0)

lemma threadsPerWorkerOf_formula:
  assumes w: "1 \<le> w" and lo: "- (2 ^ 63) \<le> p * c" and hi: "p * c < 2 ^ 63"
  shows "threadsPerWorkerOf p w c = max 1 ((p * c div 100) div w)"
proof -
  have wr: "wrap64 (p * c) = p * c" using lo hi by (rule wrap64_id)
  show ?thesis
  proof (cases "p * c < 100")
    case True
    have t: "p * c sdiv 100 \<le> 0" using True by (rule sdiv_small_le_zero)
    have a: "1 sdiv w = 1 div w" using w by (simp add: sdiv_nonneg_eq_div)
    have b: "1 div w \<le> 1" using w by (rule one_div_le)
    have "p * c div 100 \<le> 0" using True by simp
    then have d: "(p * c div 100) div w \<le> 0" using w by (rule nonpos_div_le)
    have "threadsPerWorkerOf p w c = 1"
      unfolding threadsPerWorkerOf_def Let_def wr using t a b by auto
    then show ?thesis using d by (simp add: max_def)
  next
    case False
    then have ge: "0 \<le> p * c" by simp
    have t: "p * c sdiv 100 = p * c div 100"
      using ge by (simp add: sdiv_nonneg_eq_div)
    have one: "1 \<le> p * c div 100" using False by simp
    then have s: "(p * c div 100) sdiv w = (p * c div 100) div w"
      using w by (simp add: sdiv_nonneg_eq_div)
    have "threadsPerWorkerOf p w c
            = (if p * c div 100 div w < 1 then 1 else p * c div 100 div w)"
      unfolding threadsPerWorkerOf_def Let_def wr t using one s by simp
    then show ?thesis by (simp add: max_def)
  qed
qed

lemma calculateThreadsPerWorker_8: "calculateThreadsPerWorker 8 = 2"
  unfolding calculateThreadsPerWorker_def TARGET_CPU_PERCENT_def MAX_WORKERS_def
  by (subst threadsPerWorkerOf_formula) simp_all

lemma calculateThreadsPerWorker_1: "calculateThreadsPerWorker 1 = 1"
  unfolding calculateThreadsPerWorker_def TARGET_CPU_PERCENT_def MAX_WORKERS_def
  by (subst threadsPerWorkerOf_formula) simp_all

text \<open>
  C4. The thread budget is a function of its inputs alone: for every CPU count of at
  least 1, every target percentage and every worker ceiling of at least 1 such that the
  product \<open>targetPercent * cpuCount\<close> fits Go's 64-bit \<^verbatim>\<open>int\<close>
  (\<open>- 2\<^sup>6\<^sup>3 \<le> targetPercent * cpuCount < 2\<^sup>6\<^sup>3\<close>), threads-per-worker is
  \<open>max 1 (\<lfloor>\<lfloor>targetPercent * cpuCount / 100\<rfloor> / workerCeiling\<rfloor>)\<close>; the intermediate
  total and the result are both at least 1; with the constants of the source, 8 CPUs
  give 2 threads and 1 CPU gives 1.
\<close>

theorem C4_thread_budget:
  assumes "1 \<le> cpuCount" and "1 \<le> workerCeiling"
    and "- (2 ^ 63) \<le> targetPercent * cpuCount" and "targetPercent * cpuCount < 2 ^ 63"
  shows "threadsPerWorkerOf targetPercent workerCeiling cpuCount
           = max 1 ((targetPercent * cpuCount div 100) div workerCeiling)
       \<and> 1 \<le> threadsPerWorkerOf targetPercent workerCeiling cpuCount
       \<and> calculateThreadsPerWorker cpuCount
           = threadsPerWorkerOf TARGET_CPU_PERCENT MAX_WORKERS cpuCount
       \<and> calculateThreadsPerWorker 8 = 2
       \<and> calculateThreadsPerWorker 1 = 1"
proof -
  have f: "threadsPerWorkerOf targetPercent workerCeiling cpuCount
           = max 1 ((targetPercent * cpuCount div 100) div workerCeiling)"
    using assms(2-4) by (rule threadsPerWorkerOf_formula)
  then have g: "1 \<le> threadsPerWorkerOf targetPercent workerCeiling cpuCount"
    by simp
  show ?thesis
    using f g calculateThreadsPerWorker_8 calculateThreadsPerWorker_1
    by (simp add: calculateThreadsPerWorker_def)
qed

theorem C4_thread_budget_witness:
  "threadsPerWorkerOf 50 2 8 = max 1 ((50 * 8 div 100) div 2)
   \<and> 1 \<le> threadsPerWorkerOf 50 2 8
   \<and> calculateThreadsPerWorker 8 = 2
   \<and> calculateThreadsPerWorker 1 = 1"
  using C4_thread_budget [of 8 2 50] by simp

text \<open>
  Without the bound on the product the formula fails: the product of the source's
  \<open>TARGET_CPU_PERCENT\<close> and \<open>2\<^sup>5\<^sup>8\<close> CPUs wraps around to a negative \<^verbatim>\<open>int\<close>, and
  \<^verbatim>\<open>calculateThreadsPerWorker\<close> returns 1 where the formula gives \<open>2\<^sup>5\<^sup>6\<close>; the product
  of a target percentage of \<open>2\<^sup>6\<^sup>2\<close> and 4 CPUs wraps around to 0.
\<close>

theorem C4_counterexample:
  "calculateThreadsPerWorker (2 ^ 58) = 1
   \<and> max 1 ((TARGET_CPU_PERCENT * 2 ^ 58 div 100) div MAX_WORKERS) = 2 ^ 56
   \<and> calculateThreadsPerWorker (2 ^ 58)
       \<noteq> max 1 ((TARGET_CPU_PERCENT * 2 ^ 58 div 100) div MAX_WORKERS)
   \<and> threadsPerWorkerOf (2 ^ 62) 1 4 = 1
   \<and> max 1 ((2 ^ 62 * 4 div 100) div 1) = (184467440737095516::int)"
  by (simp add: calculateThreadsPerWorker_def threadsPerWorkerOf_def wrap64_def
      TARGET_CPU_PERCENT_def MAX_WORKERS_def signed_divide_int_def)

subsection \<open>Enumeration: pruning\<close>

lemma below_refl: "below root root"
  by (simp add: below_def)

lemma below_Join:
  assumes "below root p" and "Base p \<noteq> CONVERTED_DIR"
  shows "below root (Join p name)"
proof -
  from assms(1) obtain pre where p: "p = root @ pre"
    and c: "pre \<noteq> [] \<longrightarrow> CONVERTED_DIR \<notin> set (Base root # butlast pre)"
    by (auto simp: below_def)
  have "CONVERTED_DIR \<notin> set (Base root # pre)"
  proof (cases "pre = []")
    case True
    with assms(2) p show ?thesis by simp
  next
    case False
    then have "Base p = last pre" using p by (simp add: Base_def)
    moreover have "set pre = insert (last pre) (set (butlast pre))"
      using False by (metis append_butlast_last_id list.set(2) rotate1.simps(2) set_rotate1)
    ultimately show ?thesis using c False assms(2) by auto
  qed
  then have "Join p name = root @ (pre @ [name])
      \<and> CONVERTED_DIR \<notin> set (Base root # butlast (pre @ [name]))"
    using p by (simp add: Join_def)
  then show ?thesis unfolding below_def by blast
qed

lemma visit_ext_dir:
  "visit_ext x p (info_of (Dir es)) False s
     = (if Base p = CONVERTED_DIR then (Some SkipDir, s) else (None, s))"
  by (simp add: visit_ext_def info_of_def)

lemma visit_ext_file:
  "visit_ext x p (info_of (File sz)) False s
     = (None, if allowed x p then s @ [video_file p] else s)"
  by (simp add: visit_ext_def info_of_def)

lemma visit_ext_err: "visit_ext x p info True s = (None, s)"
  by (simp add: visit_ext_def)

lemma walk_ext_below:
  fixes x :: string and root :: path
  shows "below root p \<Longrightarrow> \<forall>f\<in>set s. below root (sourcePath f)
           \<Longrightarrow> \<forall>f\<in>set (snd (walk p n (visit_ext x) s)). below root (sourcePath f)"
    and "below root p \<Longrightarrow> Base p \<noteq> CONVERTED_DIR \<Longrightarrow> \<forall>f\<in>set s. below root (sourcePath f)
           \<Longrightarrow> \<forall>f\<in>set (snd (walk_names p es (visit_ext x) s)). below root (sourcePath f)"
proof (induction p n "visit_ext x" s and p es "visit_ext x" s rule: walk_walk_names.induct)
  case (1 p sz s)
  then show ?case by (simp add: visit_ext_file video_file_def)
next
  case (2 p s)
  then show ?case by (simp add: visit_ext_err)
next
  case (3 p s)
  then show ?case by (simp add: visit_ext_err)
next
  case (4 p es s)
  then show ?case by (simp add: visit_ext_dir)
next
  case (5 p s)
  then show ?case by simp
next
  case (6 p name c es s)
  obtain e s' where w: "walk (Join p name) c (visit_ext x) s = (e, s')"
    by (cases "walk (Join p name) c (visit_ext x) s")
  have b: "below root (Join p name)" using "6.prems"(1,2) by (rule below_Join)
  have s': "\<forall>f\<in>set s'. below root (sourcePath f)"
    using "6.hyps"(1)[OF b "6.prems"(3)] w by simp
  show ?case
  proof (cases e)
    case None
    then show ?thesis
      using "6.hyps"(2)[OF w[symmetric] None "6.prems"(1,2) s'] w by simp
  next
    case (Some err)
    show ?thesis
    proof (cases "err = SkipDir \<and> (case info_of c of None \<Rightarrow> True | Some i \<Rightarrow> IsDir i)")
      case True
      then show ?thesis
        using "6.hyps"(3)[OF w[symmetric] Some True "6.prems"(1,2) s'] w Some by simp
    next
      case False
      then show ?thesis using w Some s' by auto
    qed
  qed
qed

lemma Walk_ext_below:
  "\<forall>f\<in>set (snd (Walk d root (visit_ext x) [])). below root (sourcePath f)"
proof (cases "node_at d root")
  case None
  then show ?thesis by (simp add: Walk_def visit_ext_err)
next
  case (Some n)
  have "\<forall>f\<in>set (snd (walk root n (visit_ext x) [])). below root (sourcePath f)"
    by (rule walk_ext_below(1)) (simp_all add: below_refl)
  then show ?thesis using Some
    by (auto simp: Walk_def split: prod.splits option.splits werror.splits)
qed

lemma walk_ext_error:
  fixes x :: string
  shows "fst (walk p n (visit_ext x) s) = None
           \<or> fst (walk p n (visit_ext x) s) = Some SkipDir \<and> (\<exists>es. n = Dir es)"
    and "fst (walk_names p es (visit_ext x) s) = None"
proof (induction p n "visit_ext x" s and p es "visit_ext x" s rule: walk_walk_names.induct)
  case (1 p sz s)
  then show ?case by (simp add: visit_ext_file)
next
  case (2 p s)
  then show ?case by (simp add: visit_ext_err)
next
  case (3 p s)
  then show ?case by (simp add: visit_ext_err)
next
  case (4 p es s)
  then show ?case by (simp add: visit_ext_dir)
next
  case (5 p s)
  then show ?case by simp
next
  case (6 p name c es s)
  obtain e s' where w: "walk (Join p name) c (visit_ext x) s = (e, s')"
    by (cases "walk (Join p name) c (visit_ext x) s")
  show ?case
  proof (cases e)
    case None
    then show ?thesis using "6.hyps"(2)[OF w[symmetric] None] w by simp
  next
    case (Some err)
    then have "err = SkipDir \<and> (\<exists>es. c = Dir es)" using "6.hyps"(1) w by simp
    then have t: "err = SkipDir \<and> (case info_of c of None \<Rightarrow> True | Some i \<Rightarrow> IsDir i)"
      by (auto simp: info_of_def)
    then show ?thesis using "6.hyps"(3)[OF w[symmetric] Some t] w Some by simp
  qed
qed

lemma Walk_ext_error: "fst (Walk d root (visit_ext x) s) = None"
proof (cases "node_at d root")
  case None
  then show ?thesis by (simp add: Walk_def visit_ext_err)
next
  case (Some n)
  then show ?thesis using walk_ext_error(1)[of root n x s]
    by (auto simp: Walk_def split: prod.splits option.splits werror.splits)
qed

subsection \<open>Enumeration: errors and completeness\<close>

lemma walk_ext_mono:
  fixes x :: string
  shows "set s \<subseteq> set (snd (walk p n (visit_ext x) s))"
    and "set s \<subseteq> set (snd (walk_names p es (visit_ext x) s))"
proof (induction p n "visit_ext x" s and p es "visit_ext x" s rule: walk_walk_names.induct)
  case (1 p sz s)
  then show ?case by (auto simp: visit_ext_file)
next
  case (2 p s)
  then show ?case by (simp add: visit_ext_err)
next
  case (3 p s)
  then show ?case by (simp add: visit_ext_err)
next
  case (4 p es s)
  then show ?case by (simp add: visit_ext_dir)
next
  case (5 p s)
  then show ?case by simp
next
  case (6 p name c es s)
  obtain e s' where w: "walk (Join p name) c (visit_ext x) s = (e, s')"
    by (cases "walk (Join p name) c (visit_ext x) s")
  have s': "set s \<subseteq> set s'" using "6.hyps"(1) w by simp
  show ?case
  proof (cases e)
    case None
    then show ?thesis using "6.hyps"(2)[OF w[symmetric] None] w s' by auto
  next
    case (Some err)
    show ?thesis
    proof (cases "err = SkipDir \<and> (case info_of c of None \<Rightarrow> True | Some i \<Rightarrow> IsDir i)")
      case True
      then show ?thesis using "6.hyps"(3)[OF w[symmetric] Some True] w Some s' by auto
    next
      case False
      then show ?thesis using w Some s' by auto
    qed
  qed
qed

lemma walk_names_ext_step:
  "walk_names p ((name, c) # es) (visit_ext x) s
     = walk_names p es (visit_ext x) (snd (walk (Join p name) c (visit_ext x) s))"
proof -
  obtain e s' where w: "walk (Join p name) c (visit_ext x) s = (e, s')"
    by (cases "walk (Join p name) c (visit_ext x) s")
  show ?thesis
  proof (cases e)
    case None
    then show ?thesis using w by simp
  next
    case (Some err)
    then have "err = SkipDir \<and> (\<exists>es. c = Dir es)"
      using walk_ext_error(1)[of "Join p name" c x s] w by simp
    then show ?thesis using w Some by (auto simp: info_of_def)
  qed
qed

lemma walk_ext_complete:
  fixes x :: string
  shows "node_at n rest = Some (File sz)
           \<Longrightarrow> (rest \<noteq> [] \<longrightarrow> CONVERTED_DIR \<notin> set (Base p # butlast rest))
           \<Longrightarrow> allowed x (p @ rest)
           \<Longrightarrow> video_file (p @ rest) \<in> set (snd (walk p n (visit_ext x) s))"
    and "map_of es r = Some c \<Longrightarrow> node_at c rs = Some (File sz)
           \<Longrightarrow> CONVERTED_DIR \<notin> set (butlast (r # rs))
           \<Longrightarrow> allowed x (p @ r # rs)
           \<Longrightarrow> video_file (p @ r # rs) \<in> set (snd (walk_names p es (visit_ext x) s))"
proof (induction p n "visit_ext x" s and p es "visit_ext x" s
    arbitrary: rest sz and r rs c sz rule: walk_walk_names.induct)
  case (1 p sz' s)
  then have "rest = []" by (cases rest) simp_all
  then show ?case using "1.prems" by (simp add: visit_ext_file)
next
  case (2 p s)
  then show ?case by (cases rest) simp_all
next
  case (3 p s)
  then show ?case by (cases rest) simp_all
next
  case (4 p es s)
  from "4.prems"(1) obtain r rs where rest: "rest = r # rs" by (cases rest) simp_all
  with "4.prems"(1) obtain c where c: "map_of es r = Some c" "node_at c rs = Some (File sz)"
    by (auto split: option.splits)
  have b: "Base p \<noteq> CONVERTED_DIR" and bl: "CONVERTED_DIR \<notin> set (butlast (r # rs))"
    using "4.prems"(2) rest by auto
  have v: "visit_ext x p (info_of (Dir es)) False s = (None, s)"
    using b by (simp add: visit_ext_dir)
  have "video_file (p @ r # rs) \<in> set (snd (walk_names p es (visit_ext x) s))"
    using "4.hyps"[OF v[symmetric] refl c bl] "4.prems"(3) rest by simp
  then show ?case using v rest by simp
next
  case (5 p s)
  then show ?case by simp
next
  case (6 p name c' es s)
  obtain e s' where w: "walk (Join p name) c' (visit_ext x) s = (e, s')"
    by (cases "walk (Join p name) c' (visit_ext x) s")
  have st: "walk_names p ((name, c') # es) (visit_ext x) s = walk_names p es (visit_ext x) s'"
    using w by (simp add: walk_names_ext_step del: walk_names.simps)
  show ?case
  proof (cases "name = r")
    case True
    then have cc: "c = c'" using "6.prems"(1) by simp
    have cond: "rs \<noteq> [] \<longrightarrow> CONVERTED_DIR \<notin> set (Base (Join p name) # butlast rs)"
      using "6.prems"(3) True by (auto simp: Base_def Join_def)
    have "video_file (Join p name @ rs) \<in> set (snd (walk (Join p name) c' (visit_ext x) s))"
      using "6.hyps"(1)[of rs sz] "6.prems"(2,4) cond cc True by (simp add: Join_def)
    then have "video_file (p @ r # rs) \<in> set s'" using True w by (simp add: Join_def)
    then show ?thesis
      unfolding st using walk_ext_mono(2)[of s' p es x] by blast
  next
    case False
    then have m: "map_of es r = Some c" using "6.prems"(1) by simp
    show ?thesis
    proof (cases e)
      case None
      show ?thesis
        unfolding st using "6.hyps"(2)[OF w[symmetric] None m "6.prems"(2,3,4)] by simp
    next
      case (Some err)
      then have "err = SkipDir \<and> (\<exists>es. c' = Dir es)"
        using walk_ext_error(1)[of "Join p name" c' x s] w by simp
      then have t: "err = SkipDir \<and> (case info_of c' of None \<Rightarrow> True | Some i \<Rightarrow> IsDir i)"
        by (auto simp: info_of_def)
      show ?thesis
        unfolding st using "6.hyps"(3)[OF w[symmetric] Some t m "6.prems"(2,3,4)] by simp
    qed
  qed
qed

lemma walk_ext_sound:
  fixes x :: string
  shows "f \<in> set (snd (walk p n (visit_ext x) s))
           \<Longrightarrow> f \<in> set s \<or> sourcePath f \<in> set (files_in p n) \<and> allowed x (sourcePath f)"
    and "f \<in> set (snd (walk_names p es (visit_ext x) s))
           \<Longrightarrow> f \<in> set s \<or> sourcePath f \<in> set (files_in_names p es) \<and> allowed x (sourcePath f)"
proof (induction p n "visit_ext x" s and p es "visit_ext x" s rule: walk_walk_names.induct)
  case (1 p sz s)
  then show ?case by (auto simp: visit_ext_file video_file_def split: if_splits)
next
  case (2 p s)
  then show ?case by (simp add: visit_ext_err)
next
  case (3 p s)
  then show ?case by (simp add: visit_ext_err)
next
  case (4 p es s)
  then show ?case by (simp add: visit_ext_dir split: if_splits)
next
  case (5 p s)
  then show ?case by simp
next
  case (6 p name c es s)
  obtain e s' where w: "walk (Join p name) c (visit_ext x) s = (e, s')"
    by (cases "walk (Join p name) c (visit_ext x) s")
  have st: "walk_names p ((name, c) # es) (visit_ext x) s = walk_names p es (visit_ext x) s'"
    using w by (simp add: walk_names_ext_step del: walk_names.simps)
  have f: "f \<in> set (snd (walk_names p es (visit_ext x) s'))"
    using "6.prems" unfolding st .
  have "f \<in> set s' \<or> sourcePath f \<in> set (files_in_names p es) \<and> allowed x (sourcePath f)"
  proof (cases e)
    case None
    show ?thesis using "6.hyps"(2)[OF w[symmetric] None f] .
  next
    case (Some err)
    then have "err = SkipDir \<and> (\<exists>es. c = Dir es)"
      using walk_ext_error(1)[of "Join p name" c x s] w by simp
    then have t: "err = SkipDir \<and> (case info_of c of None \<Rightarrow> True | Some i \<Rightarrow> IsDir i)"
      by (auto simp: info_of_def)
    show ?thesis using "6.hyps"(3)[OF w[symmetric] Some t f] .
  qed
  then show ?case using "6.hyps"(1) w by auto
qed

lemma visit_seq_dir: "visit_seq p (info_of (Dir es)) False s = (None, s)"
  by (simp add: visit_seq_def info_of_def)

lemma visit_seq_file:
  "visit_seq p (info_of (File sz)) False s
     = (None, if allowed_seq p then s @ [video_file p] else s)"
  by (simp add: visit_seq_def info_of_def)

lemma visit_seq_err: "visit_seq p info True s = (Some IOError, s)"
  by (simp add: visit_seq_def)

lemma walk_seq_error:
  "fst (walk p n visit_seq s) = (if faulty n then Some IOError else None)"
  "fst (walk_names p es visit_seq s) = (if faulty_names es then Some IOError else None)"
proof (induction p n visit_seq s and p es visit_seq s rule: walk_walk_names.induct)
  case (1 p sz s)
  then show ?case by (simp add: visit_seq_file)
next
  case (2 p s)
  then show ?case by (simp add: visit_seq_err)
next
  case (3 p s)
  then show ?case by (simp add: visit_seq_err)
next
  case (4 p es s)
  then show ?case by (simp add: visit_seq_dir)
next
  case (5 p s)
  then show ?case by simp
next
  case (6 p name c es s)
  obtain e s' where w: "walk (Join p name) c visit_seq s = (e, s')"
    by (cases "walk (Join p name) c visit_seq s")
  have e: "e = (if faulty c then Some IOError else None)" using "6.hyps"(1) w by simp
  show ?case
  proof (cases "faulty c")
    case True
    then show ?thesis using w e by simp
  next
    case False
    then have n: "e = None" using e by simp
    show ?thesis using "6.hyps"(2)[OF w[symmetric] n] w n False by simp
  qed
qed

lemma walk_seq_sound:
  "f \<in> set (snd (walk p n visit_seq s))
     \<Longrightarrow> f \<in> set s \<or> sourcePath f \<in> set (files_in p n) \<and> allowed_seq (sourcePath f)"
  "f \<in> set (snd (walk_names p es visit_seq s))
     \<Longrightarrow> f \<in> set s \<or> sourcePath f \<in> set (files_in_names p es) \<and> allowed_seq (sourcePath f)"
proof (induction p n visit_seq s and p es visit_seq s rule: walk_walk_names.induct)
  case (1 p sz s)
  then show ?case by (auto simp: visit_seq_file video_file_def split: if_splits)
next
  case (2 p s)
  then show ?case by (simp add: visit_seq_err)
next
  case (3 p s)
  then show ?case by (simp add: visit_seq_err)
next
  case (4 p es s)
  then show ?case by (simp add: visit_seq_dir)
next
  case (5 p s)
  then show ?case by simp
next
  case (6 p name c es s)
  obtain e s' where w: "walk (Join p name) c visit_seq s = (e, s')"
    by (cases "walk (Join p name) c visit_seq s")
  have e: "e = (if faulty c then Some IOError else None)"
    using walk_seq_error(1)[of "Join p name" c s] w by simp
  have "f \<in> set s' \<or> sourcePath f \<in> set (files_in_names p es) \<and> allowed_seq (sourcePath f)"
  proof (cases "faulty c")
    case True
    then show ?thesis using "6.prems" w e by simp
  next
    case False
    then have n: "e = None" using e by simp
    have "f \<in> set (snd (walk_names p es visit_seq s'))" using "6.prems" w n by simp
    then show ?thesis using "6.hyps"(2)[OF w[symmetric] n] by simp
  qed
  then show ?case using "6.hyps"(1) w by auto
qed

lemma findVideoFiles_pool_Walk:
  "fst (findVideoFiles_pool d root) = snd (Walk d root (visit_ext SOURCE_EXTENSIONS_pool) [])"
  "snd (findVideoFiles_pool d root) = fst (Walk d root (visit_ext SOURCE_EXTENSIONS_pool) [])"
  by (simp_all add: findVideoFiles_pool_def split: prod.splits)

lemma findVideoFiles_basic_Walk:
  "fst (findVideoFiles_basic d root) = snd (Walk d root (visit_ext SOURCE_EXTENSIONS_basic) [])"
  "snd (findVideoFiles_basic d root) = fst (Walk d root (visit_ext SOURCE_EXTENSIONS_basic) [])"
  by (simp_all add: findVideoFiles_basic_def split: prod.splits)

lemma findVideoFiles_seq_Walk:
  "fst (findVideoFiles_seq d root) = snd (Walk d root visit_seq [])"
  "snd (findVideoFiles_seq d root) = fst (Walk d root visit_seq [])"
  by (simp_all add: findVideoFiles_seq_def split: prod.splits)

lemma node_at_append:
  "node_at d (root @ rest) = Some m
     \<Longrightarrow> \<exists>n. node_at d root = Some n \<and> node_at n rest = Some m"
proof (induction root arbitrary: d)
  case Nil
  then show ?case by simp
next
  case (Cons a root)
  then show ?case by (cases d) (auto split: option.splits)
qed

lemma Walk_ext_complete:
  assumes "node_at d (root @ rest) = Some (File sz)"
    and "rest \<noteq> [] \<longrightarrow> CONVERTED_DIR \<notin> set (Base root # butlast rest)"
    and "allowed x (root @ rest)"
  shows "video_file (root @ rest) \<in> set (snd (Walk d root (visit_ext x) []))"
proof -
  from node_at_append[OF assms(1)] obtain n
    where n: "node_at d root = Some n" "node_at n rest = Some (File sz)"
    by blast
  have "video_file (root @ rest) \<in> set (snd (walk root n (visit_ext x) []))"
    using n(2) assms(2,3) by (rule walk_ext_complete(1))
  then show ?thesis using n(1)
    by (auto simp: Walk_def split: prod.splits option.splits werror.splits)
qed

lemma Walk_ext_sound:
  assumes "f \<in> set (snd (Walk d root (visit_ext x) []))"
  shows "sourcePath f \<in> set (files_under d root) \<and> allowed x (sourcePath f)"
proof (cases "node_at d root")
  case None
  then show ?thesis using assms by (simp add: Walk_def visit_ext_err)
next
  case (Some n)
  then have "f \<in> set (snd (walk root n (visit_ext x) []))"
    using assms by (auto simp: Walk_def split: prod.splits option.splits werror.splits)
  then show ?thesis using walk_ext_sound(1)[of f root n x "[]"] Some
    by (simp add: files_under_def)
qed

lemma Walk_ext_none:
  assumes "\<forall>q\<in>set (files_under d root). \<not> allowed x q"
  shows "Walk d root (visit_ext x) [] = (None, [])"
proof -
  have "f \<notin> set (snd (Walk d root (visit_ext x) []))" for f
    using Walk_ext_sound[of f d root x] assms by blast
  then have "snd (Walk d root (visit_ext x) []) = []"
    by (cases "snd (Walk d root (visit_ext x) [])") auto
  then show ?thesis using Walk_ext_error[of d root x "[]"]
    by (cases "Walk d root (visit_ext x) []") simp
qed

lemma findVideoFiles_seq_err:
  assumes "node_at d root = Some n"
  shows "snd (findVideoFiles_seq d root) = (if faulty n then Some IOError else None)"
proof -
  have "fst (walk root n visit_seq []) \<noteq> Some SkipDir"
    by (simp add: walk_seq_error(1))
  then have "fst (Walk d root visit_seq []) = fst (walk root n visit_seq [])"
    using assms by (auto simp: Walk_def split: prod.splits option.splits werror.splits)
  then show ?thesis by (simp add: findVideoFiles_seq_Walk walk_seq_error(1))
qed

lemma findVideoFiles_seq_none:
  assumes "node_at d root = Some n" and "\<not> faulty n"
    and "\<forall>q\<in>set (files_under d root). \<not> allowed_seq q"
  shows "findVideoFiles_seq d root = ([], None)"
proof -
  have e: "fst (walk root n visit_seq []) = None"
    using assms(2) by (simp add: walk_seq_error(1))
  have "f \<notin> set (snd (walk root n visit_seq []))" for f
    using walk_seq_sound(1)[of f root n "[]"] assms(1,3) by (auto simp: files_under_def)
  then have "snd (walk root n visit_seq []) = []"
    by (cases "snd (walk root n visit_seq [])") auto
  then have "walk root n visit_seq [] = (None, [])" using e
    by (cases "walk root n visit_seq []") simp
  then show ?thesis using assms(1) by (simp add: findVideoFiles_seq_def Walk_def)
qed

text \<open>
  C7, as the code has it. In the pool and basic revisions \<^verbatim>\<open>findVideoFiles\<close> never
  returns an error; an I/O error on an entry does not end the walk: every file of the
  disk below the root that no directory named \<open>CONVERTED_DIR\<close> hides and whose path
  ends with an allowed extension is enumerated, whatever entries are broken or locked;
  and when no file under the root matches, the result is the empty list and no error.
  In the sequential revision \<^verbatim>\<open>findVideoFiles\<close> returns an error exactly when an entry
  under the root is broken or locked; when there is none and no file matches, the
  result is the empty list and no error.
\<close>

theorem C7_walk_errors:
  "snd (findVideoFiles_pool d root) = None
   \<and> snd (findVideoFiles_basic d root) = None
   \<and> (node_at d (root @ rest) = Some (File sz)
        \<and> (rest \<noteq> [] \<longrightarrow> CONVERTED_DIR \<notin> set (Base root # butlast rest))
      \<longrightarrow> (allowed SOURCE_EXTENSIONS_pool (root @ rest)
             \<longrightarrow> video_file (root @ rest) \<in> set (fst (findVideoFiles_pool d root)))
          \<and> (allowed SOURCE_EXTENSIONS_basic (root @ rest)
             \<longrightarrow> video_file (root @ rest) \<in> set (fst (findVideoFiles_basic d root))))
   \<and> ((\<forall>q\<in>set (files_under d root). \<not> allowed SOURCE_EXTENSIONS_pool q)
        \<longrightarrow> findVideoFiles_pool d root = ([], None))
   \<and> ((\<forall>q\<in>set (files_under d root). \<not> allowed SOURCE_EXTENSIONS_basic q)
        \<longrightarrow> findVideoFiles_basic d root = ([], None))
   \<and> (node_at d root = Some n
        \<longrightarrow> snd (findVideoFiles_seq d root) = (if faulty n then Some IOError else None))
   \<and> (node_at d root = Some n \<and> \<not> faulty n
        \<and> (\<forall>q\<in>set (files_under d root). \<not> allowed_seq q)
        \<longrightarrow> findVideoFiles_seq d root = ([], None))"
proof -
  have e: "snd (findVideoFiles_pool d root) = None" "snd (findVideoFiles_basic d root) = None"
    by (simp_all add: findVideoFiles_pool_Walk findVideoFiles_basic_Walk Walk_ext_error)
  have c: "node_at d (root @ rest) = Some (File sz)
        \<and> (rest \<noteq> [] \<longrightarrow> CONVERTED_DIR \<notin> set (Base root # butlast rest))
      \<longrightarrow> (allowed SOURCE_EXTENSIONS_pool (root @ rest)
             \<longrightarrow> video_file (root @ rest) \<in> set (fst (findVideoFiles_pool d root)))
          \<and> (allowed SOURCE_EXTENSIONS_basic (root @ rest)
             \<longrightarrow> video_file (root @ rest) \<in> set (fst (findVideoFiles_basic d root)))"
    unfolding findVideoFiles_pool_Walk findVideoFiles_basic_Walk
    using Walk_ext_complete[of d root rest sz] by blast
  have p: "(\<forall>q\<in>set (files_under d root). \<not> allowed SOURCE_EXTENSIONS_pool q)
        \<longrightarrow> findVideoFiles_pool d root = ([], None)"
    using Walk_ext_none[of d root SOURCE_EXTENSIONS_pool] by (simp add: findVideoFiles_pool_def)
  have b: "(\<forall>q\<in>set (files_under d root). \<not> allowed SOURCE_EXTENSIONS_basic q)
        \<longrightarrow> findVideoFiles_basic d root = ([], None)"
    using Walk_ext_none[of d root SOURCE_EXTENSIONS_basic] by (simp add: findVideoFiles_basic_def)
  show ?thesis
    using c p b e findVideoFiles_seq_err[of d root n] findVideoFiles_seq_none[of d root n]
    by blast
qed

lemma seq_aborts:
  "findVideoFiles_seq faulty_disk [''videos'']
     = ([video_file [''videos'', ''a.mov'']], Some IOError)"
  by code_simp

lemma pool_goes_on:
  "findVideoFiles_pool faulty_disk [''videos'']
     = ([video_file [''videos'', ''a.mov''], video_file [''videos'', ''sub'', ''d.mov'']], None)"
  by code_simp

text \<open>
  On a disk with a broken entry the sequential revision returns the error and stops:
  the file \<open>d.mov\<close>, which comes after the broken entry, is not enumerated.
\<close>

theorem C7_counterexample:
  "node_at faulty_disk [''videos'', ''bad''] = Some Broken
   \<and> findVideoFiles_seq faulty_disk [''videos'']
       = ([video_file [''videos'', ''a.mov'']], Some IOError)
   \<and> node_at faulty_disk [''videos'', ''sub'', ''d.mov''] = Some (File 7)
   \<and> allowed_seq [''videos'', ''sub'', ''d.mov'']"
  using seq_aborts by code_simp

theorem C7_walk_errors_witness:
  "video_file [''videos'', ''sub'', ''d.mov'']
       \<in> set (fst (findVideoFiles_pool faulty_disk [''videos'']))
   \<and> snd (findVideoFiles_pool faulty_disk [''videos'']) = None
   \<and> snd (findVideoFiles_seq faulty_disk [''videos'']) = Some IOError
   \<and> findVideoFiles_pool notes_disk [''videos''] = ([], None)
   \<and> findVideoFiles_basic notes_disk [''videos''] = ([], None)
   \<and> findVideoFiles_seq plain_disk [''videos''] = ([], None)"
proof -
  have h1: "node_at faulty_disk ([''videos''] @ [''sub'', ''d.mov'']) = Some (File 7)"
    by code_simp
  have h2: "[''sub'', ''d.mov''] \<noteq> []
      \<longrightarrow> CONVERTED_DIR \<notin> set (Base [''videos''] # butlast [''sub'', ''d.mov''])"
    by code_simp
  have h3: "allowed SOURCE_EXTENSIONS_pool ([''videos''] @ [''sub'', ''d.mov''])"
    by code_simp
  have h4: "node_at faulty_disk [''videos'']
      = Some (Dir [(''a.mov'', File 10), (''bad'', Broken), (''locked'', Locked),
                   (''sub'', Dir [(''d.mov'', File 7)])])"
    by code_simp
  have h5: "faulty (Dir [(''a.mov'', File 10), (''bad'', Broken), (''locked'', Locked),
                   (''sub'', Dir [(''d.mov'', File 7)])])"
    by simp
  have h6: "\<forall>q\<in>set (files_under notes_disk [''videos'']). \<not> allowed SOURCE_EXTENSIONS_pool q"
    by code_simp
  have h7: "\<forall>q\<in>set (files_under notes_disk [''videos'']). \<not> allowed SOURCE_EXTENSIONS_basic q"
    by code_simp
  have h8: "node_at plain_disk [''videos''] = Some (Dir [(''readme.txt'', File 3)])"
    by code_simp
  have h9: "\<not> faulty (Dir [(''readme.txt'', File 3)])" by simp
  have h10: "\<forall>q\<in>set (files_under plain_disk [''videos'']). \<not> allowed_seq q"
    by code_simp
  show ?thesis
    using C7_walk_errors[of faulty_disk "[''videos'']" "[''sub'', ''d.mov'']" 7
        "Dir [(''a.mov'', File 10), (''bad'', Broken), (''locked'', Locked),
              (''sub'', Dir [(''d.mov'', File 7)])]"]
      C7_walk_errors[of notes_disk "[''videos'']" "[]" 0 Broken]
      C7_walk_errors[of plain_disk "[''videos'']" "[]" 0 "Dir [(''readme.txt'', File 3)]"]
      h1 h2 h3 h4 h5 h6 h7 h8 h9 h10
    by simp
qed

lemma seq_enters_converted:
  "findVideoFiles_seq reconverted [''videos'']
     = ([video_file [''videos'', ''converted'', ''old.mov''],
         video_file [''videos'', ''new.mov'']], None)"
  by code_simp

text \<open>
  The sequential revision enters a directory named \<open>CONVERTED_DIR\<close> and enumerates a
  file inside it.
\<close>

theorem C8_counterexample:
  "video_file [''videos'', ''converted'', ''old.mov'']
     \<in> set (fst (findVideoFiles_seq reconverted [''videos'']))
   \<and> sourceDir (video_file [''videos'', ''converted'', ''old.mov''])
       = [''videos'', CONVERTED_DIR]"
  using seq_enters_converted by (simp add: video_file_def Dir_of_def CONVERTED_DIR_def)

text \<open>
  C8, as the code has it. In the pool and basic revisions a directory named
  \<open>CONVERTED_DIR\<close> is not entered: for every enumerated file, no directory from the
  root of the walk down to the one that holds the file has that name. The sequential
  revision enters such a directory.
\<close>

theorem C8_pruning:
  "(f \<in> set (fst (findVideoFiles_pool d root)) \<or> f \<in> set (fst (findVideoFiles_basic d root))
      \<longrightarrow> (\<exists>rest. sourcePath f = root @ rest
             \<and> (rest \<noteq> [] \<longrightarrow> CONVERTED_DIR \<notin> set (Base root # butlast rest))))
   \<and> fst (findVideoFiles_seq reconverted [''videos''])
       = [video_file [''videos'', ''converted'', ''old.mov''],
          video_file [''videos'', ''new.mov'']]"
proof -
  have "below root (sourcePath f)"
    if "f \<in> set (fst (findVideoFiles_pool d root)) \<or> f \<in> set (fst (findVideoFiles_basic d root))"
    using that Walk_ext_below[of d root SOURCE_EXTENSIONS_pool]
      Walk_ext_below[of d root SOURCE_EXTENSIONS_basic]
    by (auto simp: findVideoFiles_pool_Walk findVideoFiles_basic_Walk)
  then show ?thesis using seq_enters_converted by (auto simp: below_def)
qed

lemma pool_prunes_example:
  "findVideoFiles_pool reconverted [''videos''] = ([video_file [''videos'', ''new.mov'']], None)"
  by code_simp

theorem C8_pruning_witness:
  "video_file [''videos'', ''new.mov''] \<in> set (fst (findVideoFiles_pool reconverted [''videos'']))
   \<and> sourcePath (video_file [''videos'', ''new.mov'']) = [''videos''] @ [''new.mov'']
   \<and> CONVERTED_DIR \<notin> set (Base [''videos''] # butlast [''new.mov''])
   \<and> video_file [''videos'', ''converted'', ''old.mov'']
       \<notin> set (fst (findVideoFiles_pool reconverted [''videos'']))"
proof -
  have h: "video_file [''videos'', ''new.mov'']
      \<in> set (fst (findVideoFiles_pool reconverted [''videos'']))"
    by (simp add: pool_prunes_example)
  have n: "video_file [''videos'', ''converted'', ''old.mov'']
       \<notin> set (fst (findVideoFiles_pool reconverted [''videos'']))"
    unfolding pool_prunes_example by code_simp
  from C8_pruning[of "video_file [''videos'', ''new.mov'']" reconverted "[''videos'']"] h
  obtain rest where r: "sourcePath (video_file [''videos'', ''new.mov'']) = [''videos''] @ rest"
    and c: "rest \<noteq> [] \<longrightarrow> CONVERTED_DIR \<notin> set (Base [''videos''] # butlast rest)"
    by blast
  from r have "rest = [''new.mov'']" by (simp add: video_file_def)
  then show ?thesis using h n r c by simp
qed

subsection \<open>Output paths\<close>

text \<open>
  C10. The output path is not injective on the enumerated files: every revision
  enumerates both \<open>clip.MOV\<close> and \<open>clip.mov\<close> of one directory, the two are different
  files of the same directory, and their output paths are equal; processed one after
  the other, the first is converted and the second is skipped.
\<close>

theorem C10_output_path_collision:
  "findVideoFiles_seq twins [''videos'']
     = ([video_file [''videos'', ''clip.MOV''], video_file [''videos'', ''clip.mov'']], None)
   \<and> findVideoFiles_pool twins [''videos'']
     = ([video_file [''videos'', ''clip.MOV''], video_file [''videos'', ''clip.mov'']], None)
   \<and> findVideoFiles_basic twins [''videos'']
     = ([video_file [''videos'', ''clip.MOV''], video_file [''videos'', ''clip.mov'']], None)
   \<and> video_file [''videos'', ''clip.MOV''] \<noteq> video_file [''videos'', ''clip.mov'']
   \<and> sourceDir (video_file [''videos'', ''clip.MOV''])
       = sourceDir (video_file [''videos'', ''clip.mov''])
   \<and> outputPath_of (video_file [''videos'', ''clip.MOV''])
       = [''videos'', ''converted'', ''clip.mkv'']
   \<and> outputPath_of (video_file [''videos'', ''clip.mov''])
       = [''videos'', ''converted'', ''clip.mkv'']
   \<and> fst (processFiles_seq
            [video_file [''videos'', ''clip.MOV''], video_file [''videos'', ''clip.mov'']]
            2 (steady calm) (fresh twins))
       = \<lparr>successCount = 1, skipCount = 1, errorCount = 0, canceledCount = 0\<rparr>
   \<and> fst (processFiles_pool
            [video_file [''videos'', ''clip.MOV''], video_file [''videos'', ''clip.mov'']]
            2 (steady calm) (fresh twins))
       = \<lparr>successCount = 1, skipCount = 1, errorCount = 0, canceledCount = 0\<rparr>"
  by code_simp

subsection \<open>Leftover markers\<close>

text \<open>
  C2. A run does not sweep at its start. On a disk with a leftover marker and the
  partial output it belongs to, \<^verbatim>\<open>main\<close> of the sequential and of the pool revision
  skips the source file and leaves the disk as it was: the marker and the partial
  output stay, and no transcoder is started. The sweep of the sequential revision, were
  it called, would remove the marker and keep the partial output.
\<close>

theorem C2_no_sweep_at_start:
  "main_seq 2 [''videos''] True (steady calm) (fresh crashed)
     = Finished \<lparr>successCount = 0, skipCount = 1, errorCount = 0, canceledCount = 0\<rparr>
         \<lparr>disk = crashed, processes = [],
          trace = [E_Stat [''videos'', ''a.mov''], E_MkdirAll [''videos'', ''converted''],
                   E_Stat [''videos'', ''converted'', ''a.mkv'']]\<rparr>
   \<and> main_pool 8 [''videos''] True (steady calm) (fresh crashed)
     = Finished \<lparr>successCount = 0, skipCount = 1, errorCount = 0, canceledCount = 0\<rparr>
         \<lparr>disk = crashed, processes = [],
          trace = [E_MkdirAll [''videos'', ''converted''],
                   E_Stat [''videos'', ''converted'', ''a.mkv'']]\<rparr>
   \<and> Stat crashed [''videos'', ''converted'', ''a.mkv.incomplete'']
       = Some \<lparr>IsDir = False, Size = 30\<rparr>
   \<and> Stat crashed [''videos'', ''converted'', ''a.mkv''] = Some \<lparr>IsDir = False, Size = 5\<rparr>
   \<and> disk (cleanupIncompleteFiles_seq [''videos''] (fresh crashed))
       = Dir [(''videos'', Dir [(''a.mov'', File 10),
                                (''converted'', Dir [(''a.mkv'', File 5)])])]"
  by code_simp

subsection \<open>The disk: reading after writing\<close>

lemma Stat_Nil: "Stat d [] = info_of d"
  by (simp add: Stat_def)

lemma Stat_Dir_Cons:
  "Stat (Dir es) (x # xs) = (case map_of es x of None \<Rightarrow> None | Some c \<Rightarrow> Stat c xs)"
  by (simp add: Stat_def split: option.splits)

lemma node_at_not_Dir_Cons: "\<forall>es. d \<noteq> Dir es \<Longrightarrow> node_at d (x # xs) = None"
  by (cases d) simp_all

lemma del_not_Dir: "\<forall>es. d \<noteq> Dir es \<Longrightarrow> del d p = d"
  by (cases d) simp_all

lemma put_not_Dir: "\<forall>es. d \<noteq> Dir es \<Longrightarrow> put d p n = d"
  by (cases d) simp_all

lemma info_of_Dir: "info_of (Dir es) = info_of (Dir es')"
  by (simp add: info_of_def)

lemma vacant_Dir_Cons:
  "vacant (Dir es) (x # xs)
     = (case map_of es x of None \<Rightarrow> True | Some c \<Rightarrow> vacant c xs)"
  by (simp add: vacant_def split: option.splits)

lemma vacant_below: "vacant d p \<Longrightarrow> xs \<noteq> [] \<Longrightarrow> Stat d (p @ xs) = None"
proof (induction p arbitrary: d)
  case Nil
  then show ?case
    by (cases d; cases xs) (simp_all add: vacant_def Stat_def)
next
  case (Cons a p)
  show ?case
  proof (cases d)
    case (Dir es)
    then show ?thesis using Cons
      by (auto simp: vacant_Dir_Cons Stat_Dir_Cons split: option.splits)
  qed (simp_all add: Stat_def)
qed

lemma Stat_put_other:
  "q \<noteq> p \<Longrightarrow> vacant d p \<Longrightarrow> Stat (put d p (File sz)) q = Stat d q"
proof (induction d p "File sz" arbitrary: q rule: put.induct)
  case (1 es x)
  show ?case
  proof (cases q)
    case Nil
    then show ?thesis by (simp add: Stat_Nil info_of_def)
  next
    case (Cons y ys)
    show ?thesis
    proof (cases "y = x")
      case True
      then have ys: "ys \<noteq> []" using 1 Cons by simp
      have "Stat (Dir es) ([x] @ ys) = None" using "1.prems"(2) ys by (rule vacant_below)
      moreover have "Stat (File sz) ys = None" using ys by (cases ys) (simp_all add: Stat_def)
      ultimately show ?thesis using True Cons
        by (simp add: Stat_Dir_Cons update_conv')
    next
      case False
      then show ?thesis using Cons by (simp add: Stat_Dir_Cons update_conv')
    qed
  qed
next
  case (2 es x y ys)
  show ?case
  proof (cases "map_of es x")
    case None
    then show ?thesis by simp
  next
    case (Some c)
    show ?thesis
    proof (cases q)
      case Nil
      then show ?thesis using Some by (simp add: Stat_Nil info_of_def)
    next
      case (Cons z zs)
      show ?thesis
      proof (cases "z = x")
        case True
        then have ne: "zs \<noteq> y # ys" using 2 Cons by simp
        have v: "vacant c (y # ys)" using "2.prems"(2) Some by (simp add: vacant_Dir_Cons)
        show ?thesis using "2.hyps"[OF Some ne v] True Cons Some
          by (simp add: Stat_Dir_Cons update_conv')
      next
        case False
        then show ?thesis using Cons Some by (simp add: Stat_Dir_Cons update_conv')
      qed
    qed
  qed
qed simp_all

lemma Stat_del_other:
  "q \<noteq> p \<Longrightarrow> vacant d p \<or> node_at d p = Some (Dir []) \<Longrightarrow> Stat (del d p) q = Stat d q"
proof (induction d p arbitrary: q rule: del.induct)
  case (1 es x)
  show ?case
  proof (cases q)
    case Nil
    then show ?thesis by (simp add: Stat_Nil info_of_def)
  next
    case (Cons y ys)
    show ?thesis
    proof (cases "y = x")
      case True
      then have ys: "ys \<noteq> []" using 1 Cons by simp
      have "Stat (Dir es) ([x] @ ys) = None"
        using "1.prems"(2)
      proof
        assume "vacant (Dir es) [x]"
        then show ?thesis using ys by (rule vacant_below)
      next
        assume "node_at (Dir es) [x] = Some (Dir [])"
        then show ?thesis using ys
          by (cases ys) (auto simp: Stat_Dir_Cons split: option.splits)
      qed
      then show ?thesis using True Cons
        by (simp add: Stat_Dir_Cons delete_conv')
    next
      case False
      then show ?thesis using Cons by (simp add: Stat_Dir_Cons delete_conv')
    qed
  qed
next
  case (2 es x y ys)
  show ?case
  proof (cases "map_of es x")
    case None
    then show ?thesis by simp
  next
    case (Some c)
    show ?thesis
    proof (cases q)
      case Nil
      then show ?thesis using Some by (simp add: Stat_Nil info_of_def)
    next
      case (Cons z zs)
      show ?thesis
      proof (cases "z = x")
        case True
        then have ne: "zs \<noteq> y # ys" using 2 Cons by simp
        have v: "vacant c (y # ys) \<or> node_at c (y # ys) = Some (Dir [])"
          using "2.prems"(2) Some by (simp add: vacant_Dir_Cons)
        show ?thesis using "2.IH"[OF Some ne v] True Cons Some
          by (simp add: Stat_Dir_Cons update_conv')
      next
        case False
        then show ?thesis using Cons Some by (simp add: Stat_Dir_Cons update_conv')
      qed
    qed
  qed
qed simp_all

lemma node_at_del_same: "p \<noteq> [] \<Longrightarrow> node_at (del d p) p = None"
proof (induction p arbitrary: d)
  case Nil
  then show ?case by simp
next
  case (Cons x xs)
  show ?case
  proof (cases "\<exists>es. d = Dir es")
    case False
    then show ?thesis by (simp add: del_not_Dir node_at_not_Dir_Cons)
  next
    case True
    then obtain es where d: "d = Dir es" by blast
    show ?thesis
    proof (cases xs)
      case Nil
      then show ?thesis using d by (simp add: delete_conv')
    next
      case (Cons y ys)
      then show ?thesis using d Cons.IH[of _] 
        by (cases "map_of es x") (simp_all add: update_conv')
    qed
  qed
qed

lemma node_at_put_same:
  "p \<noteq> [] \<Longrightarrow> node_at d (Dir_of p) = Some (Dir es) \<Longrightarrow> node_at (put d p n) p = Some n"
proof (induction p arbitrary: d)
  case Nil
  then show ?case by simp
next
  case (Cons x xs)
  show ?case
  proof (cases xs)
    case Nil
    then show ?thesis using Cons.prems by (cases d) (simp_all add: Dir_of_def update_conv')
  next
    case (Cons y ys)
    then have b: "Dir_of (x # xs) = x # Dir_of xs" by (simp add: Dir_of_def)
    show ?thesis
    proof (cases "\<exists>es'. d = Dir es'")
      case False
      then show ?thesis using Cons.prems b by (simp add: node_at_not_Dir_Cons)
    next
      case True
      then obtain es' where d: "d = Dir es'" by blast
      show ?thesis
      proof (cases "map_of es' x")
        case None
        then show ?thesis using Cons.prems b d by simp
      next
        case (Some c)
        then have "node_at c (Dir_of xs) = Some (Dir es)" using Cons.prems b d by simp
        then have "node_at (put c xs n) xs = Some n" using Cons.IH[of c] Cons by simp
        then show ?thesis using d Some Cons by (simp add: update_conv')
      qed
    qed
  qed
qed

lemma vacant_Stat: "vacant d p \<Longrightarrow> \<forall>i. Stat d p = Some i \<longrightarrow> \<not> IsDir i"
  by (auto simp: vacant_def Stat_def info_of_def split: option.splits node.splits)

lemma Stat_Remove_other: "q \<noteq> p \<Longrightarrow> Stat (Remove d p) q = Stat d q"
proof (cases "vacant d p \<or> node_at d p = Some (Dir [])")
  case True
  assume "q \<noteq> p"
  then have "Stat (del d p) q = Stat d q" using True by (rule Stat_del_other)
  then show ?thesis by (simp add: Remove_def split: option.splits node.splits list.splits)
next
  case False
  then show ?thesis
    by (auto simp: Remove_def vacant_def split: option.splits node.splits list.splits)
qed

lemma Stat_Remove_same:
  assumes "p \<noteq> []" and "\<forall>i. Stat d p = Some i \<longrightarrow> \<not> IsDir i"
  shows "Stat (Remove d p) p = None"
proof (cases "node_at d p")
  case None
  then show ?thesis by (simp add: Remove_def Stat_def)
next
  case (Some n)
  show ?thesis
  proof (cases n)
    case (File sz)
    then show ?thesis using Some assms(1) by (simp add: Remove_def Stat_def node_at_del_same)
  next
    case (Dir es)
    then show ?thesis using Some assms(2) by (simp add: Stat_def info_of_def)
  next
    case Locked
    then show ?thesis using Some assms(2) by (simp add: Stat_def info_of_def)
  next
    case Broken
    then show ?thesis using Some by (simp add: Remove_def Stat_def info_of_def)
  qed
qed

lemma WriteFile_Some:
  assumes "WriteFile d p sz = Some d'"
  shows "d' = put d p (File sz)" and "vacant d p" and "\<exists>es. node_at d (Dir_of p) = Some (Dir es)"
    and "p \<noteq> []"
proof -
  show "d' = put d p (File sz)" using assms
    by (auto simp: WriteFile_def split: option.splits node.splits)
  show "vacant d p" using assms
    by (auto simp: WriteFile_def vacant_def split: option.splits node.splits)
  show "\<exists>es. node_at d (Dir_of p) = Some (Dir es)" using assms
    by (auto simp: WriteFile_def split: option.splits node.splits)
  show "p \<noteq> []" using assms
    by (auto simp: WriteFile_def Dir_of_def split: option.splits node.splits)
qed

lemma Stat_WriteFile_same:
  "WriteFile d p sz = Some d' \<Longrightarrow> Stat d' p = Some \<lparr>IsDir = False, Size = sz\<rparr>"
  using WriteFile_Some[of d p sz d'] node_at_put_same[of p d _ "File sz"]
  by (auto simp: Stat_def info_of_def)

lemma Stat_WriteFile_other:
  "WriteFile d p sz = Some d' \<Longrightarrow> q \<noteq> p \<Longrightarrow> Stat d' q = Stat d q"
  using WriteFile_Some[of d p sz d'] Stat_put_other[of q p d sz] by simp


lemma Stat_MkdirAll_keeps:
  "MkdirAll d p denied = Some d' \<Longrightarrow> Stat d q = Some i \<Longrightarrow> Stat d' q = Some i"
proof (induction d p denied arbitrary: d' q rule: MkdirAll.induct)
  case (1 es denied)
  then show ?case by simp
next
  case (2 denied)
  then show ?case by simp
next
  case (3 es x xs denied)
  show ?case
  proof (cases q)
    case Nil
    then show ?thesis using "3.prems"
      by (auto simp: Stat_Nil info_of_def split: option.splits if_splits)
  next
    case (Cons y ys)
    show ?thesis
    proof (cases "map_of es x")
      case None
      then obtain c where c: "MkdirAll (Dir []) xs denied = Some c"
        and d': "d' = Dir (AList.update x c es)"
        using "3.prems"(1) by (auto split: if_splits)
      have "y \<noteq> x" using "3.prems"(2) None Cons by (auto simp: Stat_Dir_Cons)
      then show ?thesis using "3.prems"(2) Cons d' by (simp add: Stat_Dir_Cons update_conv')
    next
      case (Some c)
      then obtain c' where c': "MkdirAll c xs denied = Some c'"
        and d': "d' = Dir (AList.update x c' es)"
        using "3.prems"(1) by auto
      show ?thesis
      proof (cases "y = x")
        case True
        then have "Stat c ys = Some i" using "3.prems"(2) Cons Some by (simp add: Stat_Dir_Cons)
        then have "Stat c' ys = Some i" using "3.IH"(2)[OF Some c'] by simp
        then show ?thesis using True Cons d' by (simp add: Stat_Dir_Cons update_conv')
      next
        case False
        then show ?thesis using "3.prems"(2) Cons d' by (simp add: Stat_Dir_Cons update_conv')
      qed
    qed
  qed
qed simp_all

subsection \<open>Paths of a task\<close>

lemma outputPath_of_eq: "outputPath_of f = convertedDir_of f @ [outputFileName_of f]"
  by (simp add: outputPath_of_def Join_def)

lemma incompleteMarker_of_eq:
  "incompleteMarker_of f = convertedDir_of f @ [outputFileName_of f @ ''.incomplete'']"
  by (simp add: incompleteMarker_of_def path_append_def outputPath_of_eq)

lemma tempPath_eq:
  "path_append (outputPath_of f) ''.tmp'' = convertedDir_of f @ [outputFileName_of f @ ''.tmp'']"
  by (simp add: path_append_def outputPath_of_eq)

lemma outputFileName_of_last: "last (outputFileName_of f) = CHR ''v''"
  by (simp add: outputFileName_of_def OUTPUT_EXTENSION_def)

lemma outputPath_not_marker: "outputPath_of g \<noteq> incompleteMarker_of f"
proof
  assume "outputPath_of g = incompleteMarker_of f"
  then have "last (outputPath_of g) = last (incompleteMarker_of f)" by simp
  then have "outputFileName_of g = outputFileName_of f @ ''.incomplete''"
    by (simp add: outputPath_of_eq incompleteMarker_of_eq)
  then have "last (outputFileName_of g) = CHR ''e''" by simp
  then show False by (simp add: outputFileName_of_last)
qed

lemma outputPath_not_temp: "outputPath_of g \<noteq> path_append (outputPath_of f) ''.tmp''"
proof
  assume "outputPath_of g = path_append (outputPath_of f) ''.tmp''"
  then have "last (outputPath_of g) = last (path_append (outputPath_of f) ''.tmp'')" by simp
  then have "outputFileName_of g = outputFileName_of f @ ''.tmp''"
    unfolding tempPath_eq by (simp add: outputPath_of_eq)
  then have "last (outputFileName_of g) = CHR ''p''" by simp
  then show False by (simp add: outputFileName_of_last)
qed

lemma outputPath_not_Nil: "outputPath_of f \<noteq> []" "incompleteMarker_of f \<noteq> []"
  by (simp_all add: outputPath_of_eq incompleteMarker_of_eq)

subsection \<open>Calls of a task\<close>

lemma emit_simps:
  "disk (emit e w) = disk w" "processes (emit e w) = processes w"
  "trace (emit e w) = trace w @ [e]"
  by (simp_all add: emit_def)

lemma os_Remove_simps:
  "disk (os_Remove p w) = Remove (disk w) p" "processes (os_Remove p w) = processes w"
  "trace (os_Remove p w) = trace w @ [E_Remove p]"
  by (simp_all add: os_Remove_def emit_def)

lemma Register_simps:
  "disk (RegisterProcess p w) = disk w"
  "processes (RegisterProcess p w) = p # removeAll p (processes w)"
  "trace (RegisterProcess p w) = trace w @ [E_Register p]"
  by (simp_all add: RegisterProcess_def emit_def)

lemma Unregister_simps:
  "disk (UnregisterProcess p w) = disk w"
  "processes (UnregisterProcess p w) = removeAll p (processes w)"
  "trace (UnregisterProcess p w) = trace w @ [E_Unregister p]"
  by (simp_all add: UnregisterProcess_def emit_def)

lemma cleanup_simps:
  "disk (cleanup f w) = Remove (Remove (disk w) (outputPath_of f)) (incompleteMarker_of f)"
  "processes (cleanup f w) = processes w"
  "trace (cleanup f w) = trace w @ [E_Remove (outputPath_of f), E_Remove (incompleteMarker_of f)]"
  by (simp_all add: cleanup_def os_Remove_simps)

lemma cleanup_removes:
  assumes "no_dir (disk w) (outputPath_of f)" and "no_dir (disk w) (incompleteMarker_of f)"
  shows "Stat (disk (cleanup f w)) (outputPath_of f) = None"
    and "Stat (disk (cleanup f w)) (incompleteMarker_of f) = None"
proof -
  have o: "Stat (Remove (disk w) (outputPath_of f)) (outputPath_of f) = None"
    using assms(1) by (simp add: Stat_Remove_same outputPath_not_Nil no_dir_def)
  have "Stat (Remove (disk w) (outputPath_of f)) (incompleteMarker_of f)
      = Stat (disk w) (incompleteMarker_of f)"
    using outputPath_not_marker[of f f] by (simp add: Stat_Remove_other)
  then have "no_dir (Remove (disk w) (outputPath_of f)) (incompleteMarker_of f)"
    using assms(2) by (simp add: no_dir_def)
  then show "Stat (disk (cleanup f w)) (incompleteMarker_of f) = None"
    by (simp add: cleanup_simps Stat_Remove_same outputPath_not_Nil no_dir_def)
  show "Stat (disk (cleanup f w)) (outputPath_of f) = None"
    using o outputPath_not_marker[of f f] by (simp add: cleanup_simps Stat_Remove_other)
qed


text \<open>What \<open>cmd_Start\<close> leaves on the disk.\<close>

lemma cmd_Start_trace: "trace (snd (cmd_Start t env w)) = trace w @ [E_Start t]"
  by (simp add: cmd_Start_def emit_simps split: option.splits)

lemma cmd_Start_processes: "processes (snd (cmd_Start t env w)) = processes w"
  by (simp add: cmd_Start_def emit_simps split: option.splits)

lemma cmd_Start_fst: "fst (cmd_Start t env w) = (\<not> start_fails env)"
  by (simp add: cmd_Start_def)

lemma cmd_Start_other:
  "q \<noteq> t \<Longrightarrow> Stat (disk (snd (cmd_Start t env w))) q = Stat (disk w) q"
  by (auto simp: cmd_Start_def emit_simps Stat_WriteFile_other split: option.splits)

lemma cmd_Start_target:
  "Stat (disk w) t = None \<Longrightarrow> no_dir (disk (snd (cmd_Start t env w))) t"
  by (auto simp: cmd_Start_def emit_simps Stat_WriteFile_same no_dir_def split: option.splits)

lemma cmd_Start_target_keeps:
  "Stat (disk w) t \<noteq> None \<Longrightarrow> Stat (disk (snd (cmd_Start t env w))) t \<noteq> None"
  by (auto simp: cmd_Start_def emit_simps Stat_WriteFile_same split: option.splits)

subsection \<open>The two parts of a task\<close>

lemma after_simps:
  "disk (after w d evs) = d" "processes (after w d evs) = processes w"
  "trace (after w d evs) = trace w @ evs"
  by (simp_all add: after_def)

lemma prepare_pool_cases:
  obtains
    (canceled) "ctx_done_at_start env" "prepare_pool f env w = (Some 3, w)"
  | (mkdir_failed) "\<not> ctx_done_at_start env"
      "MkdirAll (disk w) (convertedDir_of f) (mkdir_denied env) = None"
      "prepare_pool f env w = (Some 2, after w (disk w) [E_MkdirAll (convertedDir_of f)])"
  | (skipped) d1 where "\<not> ctx_done_at_start env"
      "MkdirAll (disk w) (convertedDir_of f) (mkdir_denied env) = Some d1"
      "Stat d1 (outputPath_of f) \<noteq> None"
      "prepare_pool f env w
         = (Some 1, after w d1 [E_MkdirAll (convertedDir_of f), E_Stat (outputPath_of f)])"
  | (marker_failed) d1 where "\<not> ctx_done_at_start env"
      "MkdirAll (disk w) (convertedDir_of f) (mkdir_denied env) = Some d1"
      "Stat d1 (outputPath_of f) = None"
      "write_denied env \<or> WriteFile d1 (incompleteMarker_of f) (stamp env) = None"
      "prepare_pool f env w
         = (Some 2, after w d1 [E_MkdirAll (convertedDir_of f), E_Stat (outputPath_of f),
                                E_WriteFile (incompleteMarker_of f)])"
  | (start_failed) d1 d2 where "\<not> ctx_done_at_start env"
      "MkdirAll (disk w) (convertedDir_of f) (mkdir_denied env) = Some d1"
      "Stat d1 (outputPath_of f) = None"
      "WriteFile d1 (incompleteMarker_of f) (stamp env) = Some d2"
      "start_fails env"
      "prepare_pool f env w
         = (Some 2, cleanup f (after w d2 [E_MkdirAll (convertedDir_of f),
                E_Stat (outputPath_of f), E_WriteFile (incompleteMarker_of f),
                E_Start (outputPath_of f)]))"
  | (started) d1 d2 where "\<not> ctx_done_at_start env"
      "MkdirAll (disk w) (convertedDir_of f) (mkdir_denied env) = Some d1"
      "Stat d1 (outputPath_of f) = None"
      "WriteFile d1 (incompleteMarker_of f) (stamp env) = Some d2"
      "\<not> start_fails env"
      "prepare_pool f env w
         = (None, RegisterProcess (pid env)
              (snd (cmd_Start (outputPath_of f) env
                 (after w d2 [E_MkdirAll (convertedDir_of f), E_Stat (outputPath_of f),
                              E_WriteFile (incompleteMarker_of f)]))))"
proof (cases "ctx_done_at_start env")
  case True
  then show ?thesis using canceled by (simp add: prepare_pool_def)
next
  case nc: False
  show ?thesis
  proof (cases "MkdirAll (disk w) (convertedDir_of f) (mkdir_denied env)")
    case None
    then show ?thesis using nc mkdir_failed
      by (simp add: prepare_pool_def os_MkdirAll_def emit_def after_def)
  next
    case mk: (Some d1)
    show ?thesis
    proof (cases "Stat d1 (outputPath_of f)")
      case (Some i)
      then show ?thesis using nc mk skipped[of d1]
        by (simp add: prepare_pool_def os_MkdirAll_def os_Stat_def emit_def after_def)
    next
      case st: None
      show ?thesis
      proof (cases "write_denied env \<or> WriteFile d1 (incompleteMarker_of f) (stamp env) = None")
        case True
        then show ?thesis using nc mk st marker_failed[of d1]
          by (auto simp: prepare_pool_def os_MkdirAll_def os_Stat_def os_WriteFile_def
              emit_def after_def)
      next
        case nw: False
        then obtain d2 where wr': "WriteFile d1 (incompleteMarker_of f) (stamp env) = Some d2"
          by auto
        have wr: "\<not> write_denied env" using nw by simp
        show ?thesis
        proof (cases "start_fails env")
          case True
          then show ?thesis using nc mk st wr wr' start_failed[of d1 d2]
            by (simp add: prepare_pool_def os_MkdirAll_def os_Stat_def os_WriteFile_def
                cmd_Start_def emit_def after_def)
        next
          case False
          then show ?thesis using nc mk st wr wr' started[of d1 d2]
            by (simp add: prepare_pool_def os_MkdirAll_def os_Stat_def os_WriteFile_def
                emit_def after_def case_prod_beta cmd_Start_fst)
        qed
      qed
    qed
  qed
qed

lemma prepare_seq_pool:
  "prepare_seq f env w =
     (if ctx_done_at_start env then (Some 3, w)
      else if Stat (disk w) (sourcePath f) = None
      then (Some 2, after w (disk w) [E_Stat (sourcePath f)])
      else prepare_pool f env (after w (disk w) [E_Stat (sourcePath f)]))"
  by (auto simp: prepare_seq_def prepare_pool_def os_Stat_def emit_def after_def)



lemma prepare_pool_Some:
  assumes "prepare_pool f env w = (Some r, w1)"
  shows "r = 1 \<or> r = 2 \<or> r = 3"
    and "r = 1 \<Longrightarrow> Stat (disk w1) (outputPath_of f) \<noteq> None"
    and "r = 1 \<Longrightarrow> \<not> ctx_done_at_start env"
    and "r = 3 \<Longrightarrow> w1 = w"
  using assms by (cases rule: prepare_pool_cases[of env f w]; auto simp: after_simps)+

lemma prepare_pool_None:
  assumes "prepare_pool f env w = (None, w1)"
  shows "Stat (disk w) (outputPath_of f) = None"
    and "no_dir (disk w1) (outputPath_of f)"
    and "no_dir (disk w1) (incompleteMarker_of f)"
    and "pid env \<in> set (processes w1)"
    and "trace w1 = trace w @ [E_MkdirAll (convertedDir_of f), E_Stat (outputPath_of f),
           E_WriteFile (incompleteMarker_of f), E_Start (outputPath_of f),
           E_Register (pid env)]"
    and "\<not> ctx_done_at_start env"
proof -
  obtain d1 d2 where nc: "\<not> ctx_done_at_start env"
    and mk: "MkdirAll (disk w) (convertedDir_of f) (mkdir_denied env) = Some d1"
    and st: "Stat d1 (outputPath_of f) = None"
    and wr: "WriteFile d1 (incompleteMarker_of f) (stamp env) = Some d2"
    and w1: "w1 = RegisterProcess (pid env)
              (snd (cmd_Start (outputPath_of f) env
                 (after w d2 [E_MkdirAll (convertedDir_of f), E_Stat (outputPath_of f),
                              E_WriteFile (incompleteMarker_of f)])))"
    using assms by (cases rule: prepare_pool_cases[of env f w]) auto
  show "\<not> ctx_done_at_start env" by (rule nc)
  show "Stat (disk w) (outputPath_of f) = None"
    using st Stat_MkdirAll_keeps[OF mk, of "outputPath_of f"] by (cases "Stat (disk w) (outputPath_of f)") auto
  have st2: "Stat d2 (outputPath_of f) = None"
    using Stat_WriteFile_other[OF wr, of "outputPath_of f"] outputPath_not_marker[of f f] st
    by simp
  show "no_dir (disk w1) (outputPath_of f)"
    using st2 by (simp add: w1 Register_simps cmd_Start_target after_simps)
  have "Stat (disk w1) (incompleteMarker_of f) = Stat d2 (incompleteMarker_of f)"
    using outputPath_not_marker[of f f]
    by (simp add: w1 Register_simps cmd_Start_other after_simps)
  then show "no_dir (disk w1) (incompleteMarker_of f)"
    using Stat_WriteFile_same[OF wr] by (simp add: no_dir_def)
  show "pid env \<in> set (processes w1)" by (simp add: w1 Register_simps)
  show "trace w1 = trace w @ [E_MkdirAll (convertedDir_of f), E_Stat (outputPath_of f),
           E_WriteFile (incompleteMarker_of f), E_Start (outputPath_of f),
           E_Register (pid env)]"
    by (simp add: w1 Register_simps cmd_Start_trace after_simps)
qed

subsection \<open>Exit and cancellation\<close>

lemma prepare_seq_None:
  assumes "prepare_seq f env w = (None, w1)"
  shows "no_dir (disk w1) (outputPath_of f)"
    and "no_dir (disk w1) (incompleteMarker_of f)"
    and "pid env \<in> set (processes w1)"
    and "trace w1 = trace w @ [E_Stat (sourcePath f), E_MkdirAll (convertedDir_of f),
           E_Stat (outputPath_of f), E_WriteFile (incompleteMarker_of f),
           E_Start (outputPath_of f), E_Register (pid env)]"
    and "\<not> ctx_done_at_start env"
proof -
  have p: "prepare_pool f env (after w (disk w) [E_Stat (sourcePath f)]) = (None, w1)"
    and nc: "\<not> ctx_done_at_start env"
    using assms by (auto simp: prepare_seq_pool split: if_splits)
  show "\<not> ctx_done_at_start env" by (rule nc)
  show "no_dir (disk w1) (outputPath_of f)" using p by (rule prepare_pool_None(2))
  show "no_dir (disk w1) (incompleteMarker_of f)" using p by (rule prepare_pool_None(3))
  show "pid env \<in> set (processes w1)" using p by (rule prepare_pool_None(4))
  show "trace w1 = trace w @ [E_Stat (sourcePath f), E_MkdirAll (convertedDir_of f),
           E_Stat (outputPath_of f), E_WriteFile (incompleteMarker_of f),
           E_Start (outputPath_of f), E_Register (pid env)]"
    using prepare_pool_None(5)[OF p] by (simp add: after_simps)
qed

lemma verify_pool_result:
  assumes "no_dir (disk w) (outputPath_of f)" and "no_dir (disk w) (incompleteMarker_of f)"
  shows "fst (verify_pool f w) = 0 \<or> fst (verify_pool f w) = 2"
    and "fst (verify_pool f w) = 0
          \<longleftrightarrow> (\<exists>i. Stat (disk w) (outputPath_of f) = Some i \<and> \<not> IsDir i \<and> Size i \<noteq> 0)"
    and "trace (snd (verify_pool f w))
          = trace w @ [E_Stat (outputPath_of f)]
            @ (if fst (verify_pool f w) = 0 then [E_Remove (incompleteMarker_of f)]
               else [E_Remove (outputPath_of f), E_Remove (incompleteMarker_of f)])"
    and "Stat (disk (snd (verify_pool f w))) (incompleteMarker_of f) = None"
    and "fst (verify_pool f w) = 2 \<Longrightarrow> Stat (disk (snd (verify_pool f w))) (outputPath_of f) = None"
    and "fst (verify_pool f w) = 0
          \<Longrightarrow> Stat (disk (snd (verify_pool f w))) (outputPath_of f) = Stat (disk w) (outputPath_of f)"
    and "processes (snd (verify_pool f w)) = processes w"
proof -
  let ?w = "emit (E_Stat (outputPath_of f)) w"
  have nd: "no_dir (disk ?w) (outputPath_of f)" "no_dir (disk ?w) (incompleteMarker_of f)"
    using assms by (simp_all add: emit_simps)
  note cl = cleanup_removes[OF nd]
  have rm: "Stat (Remove (disk w) (incompleteMarker_of f)) (incompleteMarker_of f) = None"
    using assms(2) by (simp add: Stat_Remove_same outputPath_not_Nil no_dir_def)
  have ro: "Stat (Remove (disk w) (incompleteMarker_of f)) (outputPath_of f)
      = Stat (disk w) (outputPath_of f)"
    using outputPath_not_marker[of f f] by (simp add: Stat_Remove_other)
  show "fst (verify_pool f w) = 0 \<or> fst (verify_pool f w) = 2"
    by (simp add: verify_pool_def os_Stat_def split: option.splits)
  show "fst (verify_pool f w) = 0
          \<longleftrightarrow> (\<exists>i. Stat (disk w) (outputPath_of f) = Some i \<and> \<not> IsDir i \<and> Size i \<noteq> 0)"
    using assms(1) by (auto simp: verify_pool_def os_Stat_def no_dir_def split: option.splits)
  show "trace (snd (verify_pool f w))
          = trace w @ [E_Stat (outputPath_of f)]
            @ (if fst (verify_pool f w) = 0 then [E_Remove (incompleteMarker_of f)]
               else [E_Remove (outputPath_of f), E_Remove (incompleteMarker_of f)])"
    by (simp add: verify_pool_def os_Stat_def cleanup_simps os_Remove_simps emit_simps
        split: option.splits)
  show "Stat (disk (snd (verify_pool f w))) (incompleteMarker_of f) = None"
    using cl(2) rm
    by (simp add: verify_pool_def os_Stat_def os_Remove_simps emit_simps split: option.splits)
  show "Stat (disk (snd (verify_pool f w))) (outputPath_of f) = None"
    if "fst (verify_pool f w) = 2"
    using that cl(1) by (simp add: verify_pool_def os_Stat_def split: option.splits if_splits)
  show "Stat (disk (snd (verify_pool f w))) (outputPath_of f) = Stat (disk w) (outputPath_of f)"
    if "fst (verify_pool f w) = 0"
    using that ro
    by (simp add: verify_pool_def os_Stat_def os_Remove_simps emit_simps
        split: option.splits if_splits)
  show "processes (snd (verify_pool f w)) = processes w"
    by (simp add: verify_pool_def os_Stat_def os_Remove_simps emit_simps cleanup_simps
        split: option.splits)
qed

lemma await_pool_exit_zero:
  assumes "\<not> cancel_wins env" and "\<not> wait_err env"
  shows "await_pool f env w
     = verify_pool f (UnregisterProcess (pid env) (emit (E_Exited (pid env)) w))"
  using assms by (simp add: await_pool_def Let_def)

lemma processFile_pool_await:
  "prepare_pool f env w = (None, w1) \<Longrightarrow> processFile_pool f t env w = await_pool f env w1"
  by (simp add: processFile_pool_def)

lemma processFile_seq_await:
  "prepare_seq f env w = (None, w1) \<Longrightarrow> processFile_seq f t env w = await_seq f env w1"
  by (simp add: processFile_seq_def)

lemma pool_exit_zero:
  assumes p: "prepare_pool f env w = (None, w1)" and c: "\<not> cancel_wins env" "\<not> wait_err env"
  shows "(fst (processFile_pool f t env w) = 0 \<or> fst (processFile_pool f t env w) = 2)
       \<and> (fst (processFile_pool f t env w) = 0
            \<longleftrightarrow> (\<exists>i. Stat (disk w1) (outputPath_of f) = Some i \<and> \<not> IsDir i \<and> Size i \<noteq> 0))
       \<and> trace (snd (processFile_pool f t env w))
            = trace w1 @ [E_Exited (pid env), E_Unregister (pid env), E_Stat (outputPath_of f)]
              @ (if fst (processFile_pool f t env w) = 0
                 then [E_Remove (incompleteMarker_of f)]
                 else [E_Remove (outputPath_of f), E_Remove (incompleteMarker_of f)])
       \<and> Stat (disk (snd (processFile_pool f t env w))) (incompleteMarker_of f) = None
       \<and> (fst (processFile_pool f t env w) = 2
            \<longrightarrow> Stat (disk (snd (processFile_pool f t env w))) (outputPath_of f) = None)
       \<and> (fst (processFile_pool f t env w) = 0
            \<longrightarrow> Stat (disk (snd (processFile_pool f t env w))) (outputPath_of f)
                = Stat (disk w1) (outputPath_of f))
       \<and> pid env \<notin> set (processes (snd (processFile_pool f t env w)))"
proof -
  let ?w = "UnregisterProcess (pid env) (emit (E_Exited (pid env)) w1)"
  have e: "processFile_pool f t env w = verify_pool f ?w"
    using p c by (simp add: processFile_pool_await await_pool_exit_zero)
  have nd: "no_dir (disk ?w) (outputPath_of f)" "no_dir (disk ?w) (incompleteMarker_of f)"
    using prepare_pool_None(2,3)[OF p] by (simp_all add: Unregister_simps emit_simps)
  note v = verify_pool_result[OF nd]
  show ?thesis
    unfolding e using v by (simp add: Unregister_simps emit_simps)
qed

lemma seq_exit_zero:
  assumes p: "prepare_seq f env w = (None, w1)" and c: "\<not> cancel_wins env" "\<not> wait_err env"
  shows "fst (processFile_seq f t env w) = 0
       \<and> trace (snd (processFile_seq f t env w))
            = trace w1 @ [E_Exited (pid env), E_Unregister (pid env),
                          E_Remove (incompleteMarker_of f), E_Chtimes (outputPath_of f)]
       \<and> Stat (disk (snd (processFile_seq f t env w))) (outputPath_of f)
            = Stat (disk w1) (outputPath_of f)"
  using c outputPath_not_marker[of f f]
  by (simp add: processFile_seq_await[OF p] await_seq_def Let_def os_Remove_simps
      Unregister_simps emit_simps Stat_Remove_other)

lemma seq_cancel:
  assumes p: "prepare_seq f env w = (None, w1)" and c: "cancel_wins env"
  shows "fst (processFile_seq f t env w) = 3
       \<and> trace (snd (processFile_seq f t env w))
            = trace w1 @ [E_Interrupt (pid env)]
              @ (if exits_in_grace env then [E_Exited (pid env)]
                 else [E_Timeout (pid env) 5, E_Kill (pid env)])
              @ [E_Remove (outputPath_of f), E_Remove (incompleteMarker_of f),
                 E_Unregister (pid env)]
       \<and> Stat (disk (snd (processFile_seq f t env w))) (outputPath_of f) = None
       \<and> Stat (disk (snd (processFile_seq f t env w))) (incompleteMarker_of f) = None
       \<and> pid env \<notin> set (processes (snd (processFile_seq f t env w)))"
proof -
  let ?w = "if exits_in_grace env
            then emit (E_Exited (pid env)) (emit (E_Interrupt (pid env)) w1)
            else emit (E_Kill (pid env)) (emit (E_Timeout (pid env) 5)
                   (emit (E_Interrupt (pid env)) w1))"
  have e: "processFile_seq f t env w = (3, UnregisterProcess (pid env) (cleanup f ?w))"
    using c by (simp add: processFile_seq_await[OF p] await_seq_def Let_def)
  have nd: "no_dir (disk ?w) (outputPath_of f)" "no_dir (disk ?w) (incompleteMarker_of f)"
    using prepare_seq_None(1,2)[OF p] by (simp_all add: emit_simps)
  note cl = cleanup_removes[OF nd]
  show ?thesis
    unfolding e using cl by (simp add: Unregister_simps cleanup_simps emit_simps)
qed

lemma pool_cancel:
  assumes p: "prepare_pool f env w = (None, w1)" and c: "cancel_wins env"
  shows "fst (processFile_pool f t env w) = 3
       \<and> trace (snd (processFile_pool f t env w))
            = trace w1 @ [E_Kill (pid env), E_Unregister (pid env),
                          E_Remove (outputPath_of f), E_Remove (incompleteMarker_of f)]
       \<and> Stat (disk (snd (processFile_pool f t env w))) (outputPath_of f) = None
       \<and> Stat (disk (snd (processFile_pool f t env w))) (incompleteMarker_of f) = None
       \<and> pid env \<notin> set (processes (snd (processFile_pool f t env w)))"
proof -
  let ?w = "UnregisterProcess (pid env) (emit (E_Kill (pid env)) w1)"
  have e: "processFile_pool f t env w = (3, cleanup f ?w)"
    using c by (simp add: processFile_pool_await[OF p] await_pool_def Let_def)
  have nd: "no_dir (disk ?w) (outputPath_of f)" "no_dir (disk ?w) (incompleteMarker_of f)"
    using prepare_pool_None(2,3)[OF p] by (simp_all add: Unregister_simps emit_simps)
  note cl = cleanup_removes[OF nd]
  show ?thesis
    unfolding e using cl by (simp add: Unregister_simps cleanup_simps emit_simps)
qed

lemma seq_no_check:
  "processFile_seq (video_file [''videos'', ''a.mov'']) 2 (calm\<lparr>produced := None\<rparr>) (fresh trio)
     = (0, \<lparr>disk = Dir [(''videos'', Dir [(''a.mov'', File 10), (''b.mov'', File 10),
                                          (''c.mov'', File 10), (''converted'', Dir [])])],
            processes = [],
            trace = [E_Stat [''videos'', ''a.mov''], E_MkdirAll [''videos'', ''converted''],
                     E_Stat [''videos'', ''converted'', ''a.mkv''],
                     E_WriteFile [''videos'', ''converted'', ''a.mkv.incomplete''],
                     E_Start [''videos'', ''converted'', ''a.mkv''], E_Register 7,
                     E_Exited 7, E_Unregister 7,
                     E_Remove [''videos'', ''converted'', ''a.mkv.incomplete''],
                     E_Chtimes [''videos'', ''converted'', ''a.mkv'']]\<rparr>)"
  by code_simp

lemma pool_kills_at_once:
  "processFile_pool (video_file [''videos'', ''a.mov'']) 2 (calm\<lparr>cancel_wins := True\<rparr>) (fresh trio)
     = (3, \<lparr>disk = Dir [(''videos'', Dir [(''a.mov'', File 10), (''b.mov'', File 10),
                                          (''c.mov'', File 10), (''converted'', Dir [])])],
            processes = [],
            trace = [E_MkdirAll [''videos'', ''converted''],
                     E_Stat [''videos'', ''converted'', ''a.mkv''],
                     E_WriteFile [''videos'', ''converted'', ''a.mkv.incomplete''],
                     E_Start [''videos'', ''converted'', ''a.mkv''], E_Register 7,
                     E_Kill 7, E_Unregister 7,
                     E_Remove [''videos'', ''converted'', ''a.mkv''],
                     E_Remove [''videos'', ''converted'', ''a.mkv.incomplete'']]\<rparr>)"
  by code_simp

lemma pool_prepared_example:
  "prepare_pool (video_file [''videos'', ''a.mov'']) calm (fresh trio)
     = (None, \<lparr>disk = Dir [(''videos'', Dir [(''a.mov'', File 10), (''b.mov'', File 10),
         (''c.mov'', File 10),
         (''converted'', Dir [(''a.mkv.incomplete'', File 30), (''a.mkv'', File 100)])])],
            processes = [7],
            trace = [E_MkdirAll [''videos'', ''converted''],
                     E_Stat [''videos'', ''converted'', ''a.mkv''],
                     E_WriteFile [''videos'', ''converted'', ''a.mkv.incomplete''],
                     E_Start [''videos'', ''converted'', ''a.mkv''], E_Register 7]\<rparr>)"
  by code_simp

lemma seq_prepared_example:
  "prepare_seq (video_file [''videos'', ''a.mov'']) calm (fresh trio)
     = (None, \<lparr>disk = Dir [(''videos'', Dir [(''a.mov'', File 10), (''b.mov'', File 10),
         (''c.mov'', File 10),
         (''converted'', Dir [(''a.mkv.incomplete'', File 30), (''a.mkv'', File 100)])])],
            processes = [7],
            trace = [E_Stat [''videos'', ''a.mov''], E_MkdirAll [''videos'', ''converted''],
                     E_Stat [''videos'', ''converted'', ''a.mkv''],
                     E_WriteFile [''videos'', ''converted'', ''a.mkv.incomplete''],
                     E_Start [''videos'', ''converted'', ''a.mkv''], E_Register 7]\<rparr>)"
  by code_simp

text \<open>
  C1, as the code has it. In the pool revision a task whose process was started and
  exited with status zero checks the output before it reports success: it returns 0
  exactly when the output path holds a file of non-zero size, and 2 otherwise; the
  check comes before any removal; the marker is gone in both cases, the output is gone
  when the check fails and kept when it passes, and the handle is unregistered. In the
  sequential revision such a task removes the marker and returns 0 without looking at
  the output.
\<close>

theorem C1_integrity_check:
  "(prepare_pool f env w = (None, w1) \<and> \<not> cancel_wins env \<and> \<not> wait_err env \<longrightarrow>
      (fst (processFile_pool f t env w) = 0 \<or> fst (processFile_pool f t env w) = 2)
    \<and> (fst (processFile_pool f t env w) = 0
         \<longleftrightarrow> (\<exists>i. Stat (disk w1) (outputPath_of f) = Some i \<and> \<not> IsDir i \<and> Size i \<noteq> 0))
    \<and> trace (snd (processFile_pool f t env w))
         = trace w1 @ [E_Exited (pid env), E_Unregister (pid env), E_Stat (outputPath_of f)]
           @ (if fst (processFile_pool f t env w) = 0
              then [E_Remove (incompleteMarker_of f)]
              else [E_Remove (outputPath_of f), E_Remove (incompleteMarker_of f)])
    \<and> Stat (disk (snd (processFile_pool f t env w))) (incompleteMarker_of f) = None
    \<and> (fst (processFile_pool f t env w) = 2
         \<longrightarrow> Stat (disk (snd (processFile_pool f t env w))) (outputPath_of f) = None)
    \<and> (fst (processFile_pool f t env w) = 0
         \<longrightarrow> Stat (disk (snd (processFile_pool f t env w))) (outputPath_of f)
             = Stat (disk w1) (outputPath_of f))
    \<and> pid env \<notin> set (processes (snd (processFile_pool f t env w))))
   \<and> (prepare_seq f env w = (None, w2) \<and> \<not> cancel_wins env \<and> \<not> wait_err env \<longrightarrow>
      fst (processFile_seq f t env w) = 0
    \<and> trace (snd (processFile_seq f t env w))
         = trace w2 @ [E_Exited (pid env), E_Unregister (pid env),
                       E_Remove (incompleteMarker_of f), E_Chtimes (outputPath_of f)]
    \<and> Stat (disk (snd (processFile_seq f t env w))) (outputPath_of f)
         = Stat (disk w2) (outputPath_of f))"
  using pool_exit_zero[of f env w w1 t] seq_exit_zero[of f env w w2 t] by blast

theorem C1_integrity_check_witness:
  "fst (processFile_pool a_mov 2 calm (fresh trio)) = 0
   \<and> Stat (disk (snd (processFile_pool a_mov 2 calm (fresh trio)))) (incompleteMarker_of a_mov)
       = None
   \<and> Stat (disk (snd (processFile_pool a_mov 2 calm (fresh trio)))) (outputPath_of a_mov)
       = Some \<lparr>IsDir = False, Size = 100\<rparr>
   \<and> fst (processFile_pool a_mov 2 (calm\<lparr>produced := Some 0\<rparr>) (fresh trio)) = 2
   \<and> Stat (disk (snd (processFile_pool a_mov 2 (calm\<lparr>produced := Some 0\<rparr>) (fresh trio))))
        (outputPath_of a_mov) = None
   \<and> Stat (disk (snd (processFile_pool a_mov 2 (calm\<lparr>produced := Some 0\<rparr>) (fresh trio))))
        (incompleteMarker_of a_mov) = None
   \<and> fst (processFile_seq a_mov 2 (calm\<lparr>produced := Some 0\<rparr>) (fresh trio)) = 0"
proof -
  have p1: "prepare_pool a_mov calm (fresh trio) = (None, pool_running (Some 100))"
    by code_simp
  have p2: "prepare_pool a_mov (calm\<lparr>produced := Some 0\<rparr>) (fresh trio)
      = (None, pool_running (Some 0))"
    by code_simp
  have p3: "prepare_seq a_mov (calm\<lparr>produced := Some 0\<rparr>) (fresh trio)
      = (None, seq_running (Some 0))"
    by code_simp
  have c: "\<not> cancel_wins calm" "\<not> wait_err calm"
    "\<not> cancel_wins (calm\<lparr>produced := Some 0\<rparr>)" "\<not> wait_err (calm\<lparr>produced := Some 0\<rparr>)"
    by (simp_all add: calm_def)
  have s1: "Stat (disk (pool_running (Some 100))) (outputPath_of a_mov)
      = Some \<lparr>IsDir = False, Size = 100\<rparr>"
    by code_simp
  have s2: "Stat (disk (pool_running (Some 0))) (outputPath_of a_mov)
      = Some \<lparr>IsDir = False, Size = 0\<rparr>"
    by code_simp
  show ?thesis
    using C1_integrity_check[of a_mov calm "fresh trio" "pool_running (Some 100)" 2
        "seq_running (Some 100)"]
      C1_integrity_check[of a_mov "calm\<lparr>produced := Some 0\<rparr>" "fresh trio"
        "pool_running (Some 0)" 2 "seq_running (Some 0)"]
      p1 p2 p3 c s1 s2
    by auto
qed

text \<open>
  A task of the sequential revision whose transcoder exits with status zero and leaves
  no output returns 0: nothing looks at the output between the exit and the removal of
  the marker.
\<close>

theorem C1_counterexample:
  "fst (processFile_seq a_mov 2 (calm\<lparr>produced := None\<rparr>) (fresh trio)) = 0
   \<and> Stat (disk (snd (processFile_seq a_mov 2 (calm\<lparr>produced := None\<rparr>) (fresh trio))))
        (outputPath_of a_mov) = None
   \<and> trace (snd (processFile_seq a_mov 2 (calm\<lparr>produced := None\<rparr>) (fresh trio)))
       = [E_Stat [''videos'', ''a.mov''], E_MkdirAll [''videos'', ''converted''],
          E_Stat [''videos'', ''converted'', ''a.mkv''],
          E_WriteFile [''videos'', ''converted'', ''a.mkv.incomplete''],
          E_Start [''videos'', ''converted'', ''a.mkv''], E_Register 7,
          E_Exited 7, E_Unregister 7,
          E_Remove [''videos'', ''converted'', ''a.mkv.incomplete''],
          E_Chtimes [''videos'', ''converted'', ''a.mkv'']]"
  unfolding a_mov_def seq_no_check by code_simp

text \<open>
  C3, as the code has it. In the sequential revision a task whose process runs when the
  cancellation wins sends the interrupt, waits for the exit or for the timer of five
  seconds, kills the process only when the timer ran out, removes the output and the
  marker, unregisters the handle and returns 3. In the pool revision such a task kills
  the process at once, unregisters the handle, removes the output and the marker and
  returns 3.
\<close>

theorem C3_cancellation:
  "(prepare_seq f env w = (None, w1) \<and> cancel_wins env \<longrightarrow>
      fst (processFile_seq f t env w) = 3
    \<and> trace (snd (processFile_seq f t env w))
         = trace w1 @ [E_Interrupt (pid env)]
           @ (if exits_in_grace env then [E_Exited (pid env)]
              else [E_Timeout (pid env) 5, E_Kill (pid env)])
           @ [E_Remove (outputPath_of f), E_Remove (incompleteMarker_of f),
              E_Unregister (pid env)]
    \<and> Stat (disk (snd (processFile_seq f t env w))) (outputPath_of f) = None
    \<and> Stat (disk (snd (processFile_seq f t env w))) (incompleteMarker_of f) = None
    \<and> pid env \<in> set (processes w1)
    \<and> pid env \<notin> set (processes (snd (processFile_seq f t env w))))
   \<and> (prepare_pool f env w = (None, w2) \<and> cancel_wins env \<longrightarrow>
      fst (processFile_pool f t env w) = 3
    \<and> trace (snd (processFile_pool f t env w))
         = trace w2 @ [E_Kill (pid env), E_Unregister (pid env),
                       E_Remove (outputPath_of f), E_Remove (incompleteMarker_of f)]
    \<and> Stat (disk (snd (processFile_pool f t env w))) (outputPath_of f) = None
    \<and> Stat (disk (snd (processFile_pool f t env w))) (incompleteMarker_of f) = None
    \<and> pid env \<in> set (processes w2)
    \<and> pid env \<notin> set (processes (snd (processFile_pool f t env w))))"
  using seq_cancel[of f env w w1 t] pool_cancel[of f env w w2 t]
    prepare_seq_None(3)[of f env w w1] prepare_pool_None(4)[of f env w w2]
  by blast

theorem C3_cancellation_witness:
  "trace (snd (processFile_seq a_mov 2 (calm\<lparr>cancel_wins := True\<rparr>) (fresh trio)))
     = trace (seq_running (Some 100))
       @ [E_Interrupt 7, E_Timeout 7 5, E_Kill 7,
          E_Remove (outputPath_of a_mov), E_Remove (incompleteMarker_of a_mov), E_Unregister 7]
   \<and> trace (snd (processFile_seq a_mov 2
         (calm\<lparr>cancel_wins := True, exits_in_grace := True\<rparr>) (fresh trio)))
     = trace (seq_running (Some 100))
       @ [E_Interrupt 7, E_Exited 7,
          E_Remove (outputPath_of a_mov), E_Remove (incompleteMarker_of a_mov), E_Unregister 7]
   \<and> fst (processFile_seq a_mov 2 (calm\<lparr>cancel_wins := True\<rparr>) (fresh trio)) = 3
   \<and> trace (snd (processFile_pool a_mov 2 (calm\<lparr>cancel_wins := True\<rparr>) (fresh trio)))
     = trace (pool_running (Some 100))
       @ [E_Kill 7, E_Unregister 7,
          E_Remove (outputPath_of a_mov), E_Remove (incompleteMarker_of a_mov)]"
proof -
  have p1: "prepare_seq a_mov (calm\<lparr>cancel_wins := True\<rparr>) (fresh trio)
      = (None, seq_running (Some 100))"
    by code_simp
  have p2: "prepare_seq a_mov (calm\<lparr>cancel_wins := True, exits_in_grace := True\<rparr>) (fresh trio)
      = (None, seq_running (Some 100))"
    by code_simp
  have p3: "prepare_pool a_mov (calm\<lparr>cancel_wins := True\<rparr>) (fresh trio)
      = (None, pool_running (Some 100))"
    by code_simp
  have c: "cancel_wins (calm\<lparr>cancel_wins := True\<rparr>)"
    "cancel_wins (calm\<lparr>cancel_wins := True, exits_in_grace := True\<rparr>)"
    "\<not> exits_in_grace (calm\<lparr>cancel_wins := True\<rparr>)"
    "exits_in_grace (calm\<lparr>cancel_wins := True, exits_in_grace := True\<rparr>)"
    "pid (calm\<lparr>cancel_wins := True\<rparr>) = 7"
    "pid (calm\<lparr>cancel_wins := True, exits_in_grace := True\<rparr>) = 7"
    by (simp_all add: calm_def)
  show ?thesis
    using C3_cancellation[of a_mov "calm\<lparr>cancel_wins := True\<rparr>" "fresh trio"
        "seq_running (Some 100)" 2 "pool_running (Some 100)"]
      C3_cancellation[of a_mov "calm\<lparr>cancel_wins := True, exits_in_grace := True\<rparr>"
        "fresh trio" "seq_running (Some 100)" 2 "pool_running (Some 100)"]
      p1 p2 p3 c
    by simp
qed

text \<open>
  A task of the pool revision whose process runs when the cancellation wins kills the
  process without an interrupt and without a wait.
\<close>

theorem C3_counterexample:
  "fst (processFile_pool a_mov 2 (calm\<lparr>cancel_wins := True\<rparr>) (fresh trio)) = 3
   \<and> trace (snd (processFile_pool a_mov 2 (calm\<lparr>cancel_wins := True\<rparr>) (fresh trio)))
       = [E_MkdirAll [''videos'', ''converted''],
          E_Stat [''videos'', ''converted'', ''a.mkv''],
          E_WriteFile [''videos'', ''converted'', ''a.mkv.incomplete''],
          E_Start [''videos'', ''converted'', ''a.mkv''], E_Register 7,
          E_Kill 7, E_Unregister 7,
          E_Remove [''videos'', ''converted'', ''a.mkv''],
          E_Remove [''videos'', ''converted'', ''a.mkv.incomplete'']]
   \<and> E_Interrupt 7
       \<notin> set (trace (snd (processFile_pool a_mov 2 (calm\<lparr>cancel_wins := True\<rparr>) (fresh trio))))"
  unfolding a_mov_def pool_kills_at_once by simp

subsection \<open>Skipping\<close>










subsection \<open>What a run leaves\<close>



lemma await_pool_result:
  assumes "no_dir (disk w) (outputPath_of f)" and "no_dir (disk w) (incompleteMarker_of f)"
  shows "fst (await_pool f env w) = 0 \<or> fst (await_pool f env w) = 2
           \<or> fst (await_pool f env w) = 3"
    and "fst (await_pool f env w) = 0
           \<Longrightarrow> Stat (disk (snd (await_pool f env w))) (outputPath_of f) \<noteq> None"
proof -
  let ?w = "UnregisterProcess (pid env) (emit (E_Exited (pid env)) w)"
  have nd: "no_dir (disk ?w) (outputPath_of f)" "no_dir (disk ?w) (incompleteMarker_of f)"
    using assms by (simp_all add: Unregister_simps emit_simps)
  note v = verify_pool_result[OF nd]
  show "fst (await_pool f env w) = 0 \<or> fst (await_pool f env w) = 2
           \<or> fst (await_pool f env w) = 3"
    using v(1) by (auto simp: await_pool_def Let_def)
  show "Stat (disk (snd (await_pool f env w))) (outputPath_of f) \<noteq> None"
    if "fst (await_pool f env w) = 0"
  proof -
    have e: "await_pool f env w = verify_pool f ?w"
      using that by (auto simp: await_pool_def Let_def split: if_splits)
    then have z: "fst (verify_pool f ?w) = 0" using that by simp
    show ?thesis using v(2) v(6)[OF z] z unfolding e by auto
  qed
qed

lemma processFile_pool_result:
  "fst (processFile_pool f t env w) \<in> {0, 1, 2, 3}"
proof (cases "prepare_pool f env w")
  case (Pair r w1)
  show ?thesis
  proof (cases r)
    case None
    then show ?thesis
      using Pair await_pool_result(1)[OF prepare_pool_None(2,3), of f env w w1 env]
      by (auto simp: processFile_pool_def)
  next
    case (Some x)
    then show ?thesis using Pair prepare_pool_Some(1)[of f env w x w1]
      by (auto simp: processFile_pool_def)
  qed
qed











subsection \<open>The ceiling\<close>

lemma running_le: "running s \<le> length (goroutines s)"
  by (simp add: running_def)

lemma step_slots:
  assumes "step prep await env n s s'"
    and "semaphore s = length (goroutines s)" and "int (semaphore s) \<le> MAX_WORKERS"
  shows "semaphore s' = length (goroutines s') \<and> int (semaphore s') \<le> MAX_WORKERS"
  using assms by (induction rule: step.induct) simp_all

lemma reachable_slots:
  assumes "reachable prep await env files w s"
  shows "semaphore s = length (goroutines s) \<and> int (semaphore s) \<le> MAX_WORKERS"
  using assms
proof (induction rule: reachable.induct)
  case init
  then show ?case by (simp add: start_sched_def MAX_WORKERS_def)
next
  case (more s s')
  then show ?case using step_slots by blast
qed

lemma step_full:
  assumes "step prep await env n s s'" and "int (semaphore s) = MAX_WORKERS"
  shows "pending s' = pending s \<and> semaphore s' \<le> semaphore s"
  using assms by (induction rule: step.induct) simp_all

text \<open>
  C9. Under every schedule of the goroutines of \<^verbatim>\<open>processFiles\<close>, whatever the files
  and whatever the two parts of \<^verbatim>\<open>processFile\<close> do: the processes that run are never more
  than \<open>MAX_WORKERS\<close>; the channel holds one value for each goroutine alive; while it
  holds \<open>MAX_WORKERS\<close> values no step takes a file from the list; and a goroutine whose
  \<^verbatim>\<open>processFile\<close> has returned can take its value out, whatever the result.
\<close>

theorem C9_ceiling:
  "(reachable prep await env files w s \<longrightarrow>
      int (running s) \<le> MAX_WORKERS
    \<and> semaphore s = length (goroutines s)
    \<and> int (semaphore s) \<le> MAX_WORKERS)
   \<and> (step prep await env n s s' \<and> int (semaphore s) = MAX_WORKERS \<longrightarrow>
      pending s' = pending s \<and> semaphore s' \<le> semaphore s)
   \<and> (reachable prep await env files w s
       \<and> goroutines s = before @ (i, file, Returned res) # behind \<longrightarrow>
      step prep await env (int (length files)) s
        (s\<lparr>goroutines := before @ behind, semaphore := semaphore s - 1,
           counts := tally res (counts s)\<rparr>)
    \<and> 0 < semaphore s)"
proof -
  have a: "int (running s) \<le> MAX_WORKERS \<and> semaphore s = length (goroutines s)
      \<and> int (semaphore s) \<le> MAX_WORKERS"
    if r: "reachable prep await env files w s"
  proof -
    have sl: "semaphore s = length (goroutines s)" "int (semaphore s) \<le> MAX_WORKERS"
      using reachable_slots[OF r] by simp_all
    have "int (running s) \<le> int (semaphore s)" using running_le[of s] sl(1) by simp
    then show ?thesis using sl by simp
  qed
  have c: "step prep await env (int (length files)) s
        (s\<lparr>goroutines := before @ behind, semaphore := semaphore s - 1,
           counts := tally res (counts s)\<rparr>) \<and> 0 < semaphore s"
    if r: "reachable prep await env files w s"
      and g: "goroutines s = before @ (i, file, Returned res) # behind"
    using step.release[OF g, of prep await env "int (length files)"]
      reachable_slots[OF r] g by simp
  show ?thesis using a c step_full[of prep await env n s s'] by blast
qed

lemma sched_of_simps:
  "pending (sched_of files k gs c w) = files" "next_index (sched_of files k gs c w) = k"
  "semaphore (sched_of files k gs c w) = length gs" "goroutines (sched_of files k gs c w) = gs"
  "counts (sched_of files k gs c w) = c" "wld (sched_of files k gs c w) = w"
  by (simp_all add: sched_of_def)

lemma launch_sched_of:
  assumes "int (length gs) < MAX_WORKERS" and "\<not> ctx_done_at_loop (env k)"
  shows "step prep await env n (sched_of (f # files) k gs c w)
           (sched_of files (Suc k) (gs @ [(k, f, Preparing)]) c w)"
  using step.launch[of "sched_of (f # files) k gs c w" f files prep await env n] assms
  by (simp add: sched_of_def)

lemma prepare_sched_of:
  assumes "prep f (env i) w = (r, w')"
  shows "step prep await env n (sched_of files k (before @ (i, f, Preparing) # behind) c w)
           (sched_of files k
              (before @ (i, f, case r of None \<Rightarrow> Running | Some res \<Rightarrow> Returned res) # behind)
              c w')"
  using step.prepare[of "sched_of files k (before @ (i, f, Preparing) # behind) c w"
      before i f behind prep env r w' await n] assms
  by (simp add: sched_of_def)

lemma finish_sched_of:
  assumes "await f (env i) w = (res, w')"
  shows "step prep await env n (sched_of files k (before @ (i, f, Running) # behind) c w)
           (sched_of files k (before @ (i, f, Returned res) # behind) c w')"
  using step.finish[of "sched_of files k (before @ (i, f, Running) # behind) c w"
      before i f behind await env res w' prep n] assms
  by (simp add: sched_of_def)

theorem C9_ceiling_witness:
  "reachable prepare_pool await_pool (steady calm) trio_files (fresh trio)
     (sched_of [c_mov] 2 [(0, a_mov, Running), (1, b_mov, Preparing)] no_counts
        (pool_running (Some 100)))
   \<and> int (running (sched_of [c_mov] 2 [(0, a_mov, Running), (1, b_mov, Preparing)] no_counts
        (pool_running (Some 100)))) \<le> MAX_WORKERS
   \<and> int (semaphore (sched_of [c_mov] 2 [(0, a_mov, Preparing), (1, b_mov, Preparing)]
        no_counts (fresh trio))) = MAX_WORKERS
   \<and> pending (sched_of [c_mov] 2 [(0, a_mov, Running), (1, b_mov, Preparing)] no_counts
        (pool_running (Some 100))) = [c_mov]
   \<and> step prepare_pool await_pool (steady calm) 3
        (sched_of [c_mov] 2 [(0, a_mov, Returned 0), (1, b_mov, Preparing)] no_counts
           (snd (await_pool a_mov calm (pool_running (Some 100)))))
        (sched_of [c_mov] 2 [(1, b_mov, Preparing)] (tally 0 no_counts)
           (snd (await_pool a_mov calm (pool_running (Some 100)))))"
proof -
  let ?P = prepare_pool and ?A = await_pool and ?E = "steady calm"
  let ?n = "int (length trio_files)"
  let ?t0 = "sched_of trio_files 0 [] no_counts (fresh trio)"
  let ?t1 = "sched_of [b_mov, c_mov] 1 [(0, a_mov, Preparing)] no_counts (fresh trio)"
  let ?t2 = "sched_of [c_mov] 2 [(0, a_mov, Preparing), (1, b_mov, Preparing)] no_counts
               (fresh trio)"
  let ?t3 = "sched_of [c_mov] 2 [(0, a_mov, Running), (1, b_mov, Preparing)] no_counts
               (pool_running (Some 100))"
  let ?w4 = "snd (await_pool a_mov calm (pool_running (Some 100)))"
  let ?t4 = "sched_of [c_mov] 2 [(0, a_mov, Returned 0), (1, b_mov, Preparing)] no_counts ?w4"
  let ?t5 = "sched_of [c_mov] 2 [(1, b_mov, Preparing)] (tally 0 no_counts) ?w4"
  have e: "\<not> ctx_done_at_loop (?E k)" for k by (simp add: steady_def calm_def)
  have fs: "trio_files = [a_mov, b_mov, c_mov]"
    by (simp add: trio_files_def a_mov_def b_mov_def c_mov_def)
  have len: "?n = 3" by (simp add: trio_files_def)
  have "?t0 = start_sched trio_files (fresh trio)" by (simp add: sched_of_def start_sched_def)
  then have r0: "reachable ?P ?A ?E trio_files (fresh trio) ?t0"
    by (simp add: reachable.init)
  have "step ?P ?A ?E ?n (sched_of (a_mov # [b_mov, c_mov]) 0 [] no_counts (fresh trio))
          (sched_of [b_mov, c_mov] (Suc 0) ([] @ [(0, a_mov, Preparing)]) no_counts (fresh trio))"
    by (rule launch_sched_of) (simp_all add: MAX_WORKERS_def e)
  then have s01: "step ?P ?A ?E ?n ?t0 ?t1" by (simp add: fs)
  have "step ?P ?A ?E ?n (sched_of (b_mov # [c_mov]) 1 [(0, a_mov, Preparing)] no_counts (fresh trio))
          (sched_of [c_mov] (Suc 1) ([(0, a_mov, Preparing)] @ [(1, b_mov, Preparing)])
             no_counts (fresh trio))"
    by (rule launch_sched_of) (simp_all add: MAX_WORKERS_def e)
  then have s12: "step ?P ?A ?E ?n ?t1 ?t2" by (simp add: eval_nat_numeral)
  have p: "prepare_pool a_mov calm (fresh trio) = (None, pool_running (Some 100))"
    by code_simp
  have "step ?P ?A ?E ?n
          (sched_of [c_mov] 2 ([] @ (0, a_mov, Preparing) # [(1, b_mov, Preparing)])
             no_counts (fresh trio))
          (sched_of [c_mov] 2
             ([] @ (0, a_mov, case None of None \<Rightarrow> Running | Some res \<Rightarrow> Returned res)
                # [(1, b_mov, Preparing)])
             no_counts (pool_running (Some 100)))"
    by (rule prepare_sched_of) (simp add: steady_def p)
  then have s23: "step ?P ?A ?E ?n ?t2 ?t3" by simp
  have aw0: "fst (await_pool a_mov calm (pool_running (Some 100))) = 0"
    by code_simp
  have aw: "await_pool a_mov calm (pool_running (Some 100)) = (0, ?w4)"
    using aw0 by (metis prod.collapse)
  have "step ?P ?A ?E ?n
          (sched_of [c_mov] 2 ([] @ (0, a_mov, Running) # [(1, b_mov, Preparing)])
             no_counts (pool_running (Some 100)))
          (sched_of [c_mov] 2 ([] @ (0, a_mov, Returned 0) # [(1, b_mov, Preparing)])
             no_counts ?w4)"
    by (rule finish_sched_of, unfold steady_def, rule aw)
  then have s34: "step ?P ?A ?E ?n ?t3 ?t4" by simp
  have r1: "reachable ?P ?A ?E trio_files (fresh trio) ?t1"
    using r0 s01 by (rule reachable.more)
  have r2: "reachable ?P ?A ?E trio_files (fresh trio) ?t2"
    using r1 s12 by (rule reachable.more)
  have r3: "reachable ?P ?A ?E trio_files (fresh trio) ?t3"
    using r2 s23 by (rule reachable.more)
  have r4: "reachable ?P ?A ?E trio_files (fresh trio) ?t4"
    using r3 s34 by (rule reachable.more)
  have g4: "goroutines ?t4 = [] @ (0, a_mov, Returned 0) # [(1, b_mov, Preparing)]"
    by (simp add: sched_of_def)
  have u: "?t4\<lparr>goroutines := [] @ [(1, b_mov, Preparing)], semaphore := semaphore ?t4 - 1,
              counts := tally 0 (counts ?t4)\<rparr> = ?t5"
    by (simp add: sched_of_def)
  have full: "int (semaphore ?t2) = MAX_WORKERS" by (simp add: sched_of_def MAX_WORKERS_def)
  note th2 = C9_ceiling[of ?P ?A ?E trio_files "fresh trio" ?t2 ?n ?t3 "[]" 0 a_mov 0
        "[(1, b_mov, Preparing)]"]
  note th3 = C9_ceiling[of ?P ?A ?E trio_files "fresh trio" ?t3 ?n ?t4 "[]" 0 a_mov 0
        "[(1, b_mov, Preparing)]"]
  note th4 = C9_ceiling[of ?P ?A ?E trio_files "fresh trio" ?t4 ?n ?t5 "[]" 0 a_mov 0
        "[(1, b_mov, Preparing)]"]
  have c1: "int (running ?t3) \<le> MAX_WORKERS" using th3 r3 by blast
  have c2: "pending ?t3 = pending ?t2" using th2 s23 full by blast
  have c3: "step ?P ?A ?E ?n ?t4 ?t5" using th4 r4 g4 unfolding u by blast
  show ?thesis using r3 c1 c2 c3 full len by (simp add: sched_of_simps)
qed

lemma release_sched_of:
  "step prep await env n (sched_of files k (before @ (i, f, Returned res) # behind) c w)
     (sched_of files k (before @ behind) (tally res c) w)"
  using step.release[of "sched_of files k (before @ (i, f, Returned res) # behind) c w"
      before i f res behind prep await env n]
  by (simp add: sched_of_def)

lemma launch_sched_of':
  assumes "int (length gs) < MAX_WORKERS"
  shows "step prep await env n (sched_of (f # files) k gs c w)
           (sched_of files (Suc k) (gs @ [(k, f, Preparing)])
              (if ctx_done_at_loop (env k) then rest_canceled n c else c) w)"
  using step.launch[of "sched_of (f # files) k gs c w" f files prep await env n] assms
  by (simp add: sched_of_def cong: if_cong)

lemma task_alone:
  assumes r: "reachable prepare_pool await_pool env files w0 (sched_of (f # rest) k [] c w)"
  shows "reachable prepare_pool await_pool env files w0
           (sched_of rest (Suc k) []
              (tally (fst (processFile_pool f t (env k) w))
                 (if ctx_done_at_loop (env k) then rest_canceled (int (length files)) c else c))
              (snd (processFile_pool f t (env k) w)))"
proof -
  let ?n = "int (length files)"
  let ?c0 = "if ctx_done_at_loop (env k) then rest_canceled ?n c else c"
  have "step prepare_pool await_pool env ?n (sched_of (f # rest) k [] c w)
          (sched_of rest (Suc k) ([] @ [(k, f, Preparing)]) ?c0 w)"
    by (rule launch_sched_of') (simp add: MAX_WORKERS_def)
  then have r1: "reachable prepare_pool await_pool env files w0
      (sched_of rest (Suc k) ([] @ (k, f, Preparing) # []) ?c0 w)"
    using r reachable.more by fastforce
  obtain x w1 where p: "prepare_pool f (env k) w = (x, w1)"
    by (cases "prepare_pool f (env k) w")
  have s2: "step prepare_pool await_pool env ?n
      (sched_of rest (Suc k) ([] @ (k, f, Preparing) # []) ?c0 w)
      (sched_of rest (Suc k)
         ([] @ (k, f, case x of None \<Rightarrow> Running | Some res \<Rightarrow> Returned res) # []) ?c0 w1)"
    using p by (rule prepare_sched_of)
  have r2: "reachable prepare_pool await_pool env files w0
      (sched_of rest (Suc k)
         ([] @ (k, f, case x of None \<Rightarrow> Running | Some res \<Rightarrow> Returned res) # []) ?c0 w1)"
    using r1 s2 by (rule reachable.more)
  have r3: "reachable prepare_pool await_pool env files w0
      (sched_of rest (Suc k)
         ([] @ (k, f, Returned (fst (processFile_pool f t (env k) w))) # []) ?c0
         (snd (processFile_pool f t (env k) w)))"
  proof (cases x)
    case None
    obtain res w2 where a: "await_pool f (env k) w1 = (res, w2)"
      by (cases "await_pool f (env k) w1")
    have "step prepare_pool await_pool env ?n
        (sched_of rest (Suc k) ([] @ (k, f, Running) # []) ?c0 w1)
        (sched_of rest (Suc k) ([] @ (k, f, Returned res) # []) ?c0 w2)"
      using a by (rule finish_sched_of)
    moreover have "reachable prepare_pool await_pool env files w0
        (sched_of rest (Suc k) ([] @ (k, f, Running) # []) ?c0 w1)"
      using r2 None by simp
    ultimately have "reachable prepare_pool await_pool env files w0
        (sched_of rest (Suc k) ([] @ (k, f, Returned res) # []) ?c0 w2)"
      using reachable.more by blast
    moreover have "processFile_pool f t (env k) w = (res, w2)"
      using p a None by (simp add: processFile_pool_def)
    ultimately show ?thesis by simp
  next
    case (Some res)
    then have "processFile_pool f t (env k) w = (res, w1)"
      using p by (simp add: processFile_pool_def)
    then show ?thesis using r2 Some by simp
  qed
  have "step prepare_pool await_pool env ?n
      (sched_of rest (Suc k)
         ([] @ (k, f, Returned (fst (processFile_pool f t (env k) w))) # []) ?c0
         (snd (processFile_pool f t (env k) w)))
      (sched_of rest (Suc k) ([] @ [])
         (tally (fst (processFile_pool f t (env k) w)) ?c0)
         (snd (processFile_pool f t (env k) w)))"
    by (rule release_sched_of)
  then show ?thesis using r3 reachable.more by fastforce
qed

lemma loop_pool_reachable:
  assumes "reachable prepare_pool await_pool env files w0 (sched_of rest k [] c w)"
  shows "reachable prepare_pool await_pool env files w0
           (sched_of [] (k + length rest) []
              (fst (loop_pool (int (length files)) rest t env k c w))
              (snd (loop_pool (int (length files)) rest t env k c w)))"
  using assms
proof (induction rest arbitrary: k c w)
  case Nil
  then show ?case by simp
next
  case (Cons f rest)
  from Cons.IH[OF task_alone[OF Cons.prems, of t]] show ?case
    by (simp add: Let_def case_prod_beta)
qed

lemma processFiles_pool_reachable:
  "reachable prepare_pool await_pool env files w
     (sched_of [] (length files) [] (fst (processFiles_pool files t env w))
        (snd (processFiles_pool files t env w)))"
proof -
  have "sched_of files 0 [] no_counts w = start_sched files w"
    by (simp add: sched_of_def start_sched_def)
  then have "reachable prepare_pool await_pool env files w (sched_of files 0 [] no_counts w)"
    by (simp add: reachable.init)
  from loop_pool_reachable[OF this, of t] show ?thesis
    by (simp add: processFiles_pool_def)
qed

subsection \<open>Counting outcomes\<close>

lemma pool_overcount_eval:
  "fst (processFiles_pool trio_files 2 (interrupted_after 1) (fresh trio))
     = \<lparr>successCount = 1, skipCount = 0, errorCount = 0, canceledCount = 3\<rparr>"
  by code_simp

text \<open>
  C6. In the pool revision the counters can exceed the number of files. With three
  files and the context cancelled after the first task, the loop sets the cancelled
  count to the number of files left and goes on, and each remaining task adds one: the
  summary counts four outcomes for three files, and this end of the run is one that the
  goroutines can reach. The loop of the sequential revision ends at the cancelled
  context and counts three.
\<close>

theorem C6_pool_overcounts:
  "findVideoFiles_pool trio [''videos''] = (trio_files, None)
   \<and> length trio_files = 3
   \<and> fst (processFiles_pool trio_files 2 (interrupted_after 1) (fresh trio))
       = \<lparr>successCount = 1, skipCount = 0, errorCount = 0, canceledCount = 3\<rparr>
   \<and> summary \<lparr>successCount = 1, skipCount = 0, errorCount = 0, canceledCount = 3\<rparr>
       = [(''success'', 1), (''skipped'', 0), (''canceled'', 3), (''errors'', 0)]
   \<and> reachable prepare_pool await_pool (interrupted_after 1) trio_files (fresh trio)
        (sched_of [] 3 [] \<lparr>successCount = 1, skipCount = 0, errorCount = 0, canceledCount = 3\<rparr>
           (snd (processFiles_pool trio_files 2 (interrupted_after 1) (fresh trio))))
   \<and> fst (processFiles_seq trio_files 2 (interrupted_after 1) (fresh trio))
       = \<lparr>successCount = 1, skipCount = 0, errorCount = 0, canceledCount = 2\<rparr>"
proof -
  have a: "findVideoFiles_pool trio [''videos''] = (trio_files, None)" by code_simp
  have b: "length trio_files = 3" by (simp add: trio_files_def)
  have c: "summary \<lparr>successCount = 1, skipCount = 0, errorCount = 0, canceledCount = 3\<rparr>
       = [(''success'', 1), (''skipped'', 0), (''canceled'', 3), (''errors'', 0)]"
    by (simp add: summary_def)
  have d: "fst (processFiles_seq trio_files 2 (interrupted_after 1) (fresh trio))
       = \<lparr>successCount = 1, skipCount = 0, errorCount = 0, canceledCount = 2\<rparr>"
    by code_simp
  have e: "reachable prepare_pool await_pool (interrupted_after 1) trio_files (fresh trio)
        (sched_of [] 3 [] \<lparr>successCount = 1, skipCount = 0, errorCount = 0, canceledCount = 3\<rparr>
           (snd (processFiles_pool trio_files 2 (interrupted_after 1) (fresh trio))))"
    using processFiles_pool_reachable[of "interrupted_after 1" trio_files "fresh trio" 2]
    unfolding pool_overcount_eval b .
  show ?thesis using a b c d e pool_overcount_eval by simp
qed

end
